theory Spec2Isabelle
  imports Complex_Main "HOL-Library.Log_Nat"
begin

section \<open>JavaScript numbers and values\<close>

text \<open>
  The coordinates read by \<open>findConnections\<close> are JavaScript numbers, that is IEEE 754
  binary64 values. A number is modelled as one of the special values \<open>NaN\<close>, \<open>-Infinity\<close>,
  \<open>Infinity\<close>, or a finite value carried as a rational (every finite double is one). An
  arithmetic operation on finite values returns the exact result rounded to binary64:
  to the nearest double, ties to the even significand, with gradual underflow, and to an
  infinity when the rounded magnitude reaches \<open>2^1024\<close>. The special values follow
  IEEE 754 (\<open>NaN\<close> is absorbing and compares false with everything,
  \<open>Infinity - Infinity\<close> is \<open>NaN\<close>, and so on). The sign of zero is not modelled: the
  program never divides by a variable, and comparisons do not distinguish the two zeros.
\<close>

datatype jsnum = NaN | NegInf | Fin rat | PosInf

text \<open>Powers of two with an integer exponent.\<close>

definition pow2 :: "int \<Rightarrow> rat" where
  "pow2 k = (if 0 \<le> k then of_int (2 ^ nat k) else 1 / of_int (2 ^ nat (- k)))"

text \<open>
  The binary exponent of a positive rational \<open>x\<close>: the \<open>e\<close> with \<open>2^e \<le> x < 2^(e+1)\<close>. For
  \<open>x = p / q\<close> in lowest terms it is the difference of the bit lengths of \<open>p\<close> and \<open>q\<close>, or
  one less.
\<close>

definition ilog2 :: "rat \<Rightarrow> int" where
  "ilog2 x =
     (let k = bitlen (fst (quotient_of x)) - bitlen (snd (quotient_of x))
      in if pow2 k \<le> x then k else k - 1)"

text \<open>Rounding to the nearest integer, ties to the even one.\<close>

definition round_half_even :: "rat \<Rightarrow> int" where
  "round_half_even x =
     (let f = \<lfloor>x\<rfloor>; d = x - of_int f
      in if d < 1 / 2 then f
         else if 1 / 2 < d then f + 1
         else if even f then f else f + 1)"

text \<open>
  Rounding to binary64. The spacing of the doubles around \<open>x\<close> is \<open>2^(e - 52)\<close>, where \<open>e\<close>
  is the binary exponent of \<open>x\<close>, and at least \<open>-1022\<close> (below \<open>2^(-1022)\<close> the doubles are
  the multiples of \<open>2^(-1074)\<close>).
\<close>

definition round64 :: "rat \<Rightarrow> jsnum" where
  "round64 x =
     (if x = 0 then Fin 0
      else
        let e = max (ilog2 \<bar>x\<bar>) (- 1022);
            ulp = pow2 (e - 52);
            r = of_int (round_half_even (x / ulp)) * ulp
        in if pow2 1024 \<le> r then PosInf
           else if r \<le> - pow2 1024 then NegInf
           else Fin r)"

fun js_neg :: "jsnum \<Rightarrow> jsnum" where
  "js_neg NaN = NaN"
| "js_neg NegInf = PosInf"
| "js_neg (Fin a) = Fin (- a)"
| "js_neg PosInf = NegInf"

fun js_add :: "jsnum \<Rightarrow> jsnum \<Rightarrow> jsnum" where
  "js_add NaN _ = NaN"
| "js_add _ NaN = NaN"
| "js_add (Fin a) (Fin b) = round64 (a + b)"
| "js_add (Fin a) b = b"
| "js_add a (Fin b) = a"
| "js_add PosInf PosInf = PosInf"
| "js_add NegInf NegInf = NegInf"
| "js_add PosInf NegInf = NaN"
| "js_add NegInf PosInf = NaN"

definition js_sub :: "jsnum \<Rightarrow> jsnum \<Rightarrow> jsnum" where
  "js_sub a b = js_add a (js_neg b)"

text \<open>The sign of a number as -1, 0 or 1; only used on numbers other than \<open>NaN\<close>.\<close>

fun js_sign :: "jsnum \<Rightarrow> rat" where
  "js_sign NaN = 0"
| "js_sign NegInf = - 1"
| "js_sign (Fin a) = sgn a"
| "js_sign PosInf = 1"

fun js_mul :: "jsnum \<Rightarrow> jsnum \<Rightarrow> jsnum" where
  "js_mul NaN _ = NaN"
| "js_mul _ NaN = NaN"
| "js_mul (Fin a) (Fin b) = round64 (a * b)"
| "js_mul a b =
     (if js_sign a * js_sign b = 0 then NaN
      else if js_sign a * js_sign b > 0 then PosInf else NegInf)"

text \<open>
  Division. The program only divides by the literal \<open>2\<close>; for a zero divisor the
  result given here is the one for a positive zero.
\<close>

fun js_div :: "jsnum \<Rightarrow> jsnum \<Rightarrow> jsnum" where
  "js_div NaN _ = NaN"
| "js_div _ NaN = NaN"
| "js_div (Fin a) (Fin b) =
     (if b = 0 then (if a = 0 then NaN else if a > 0 then PosInf else NegInf)
      else round64 (a / b))"
| "js_div (Fin a) b = Fin 0"
| "js_div a (Fin b) = (if js_sign a * (if b < 0 then - 1 else 1) > 0 then PosInf else NegInf)"
| "js_div a b = NaN"

fun js_abs :: "jsnum \<Rightarrow> jsnum" where
  "js_abs NaN = NaN"
| "js_abs NegInf = PosInf"
| "js_abs (Fin a) = Fin \<bar>a\<bar>"
| "js_abs PosInf = PosInf"

fun js_lt :: "jsnum \<Rightarrow> jsnum \<Rightarrow> bool" where
  "js_lt NaN _ = False"
| "js_lt _ NaN = False"
| "js_lt (Fin a) (Fin b) = (a < b)"
| "js_lt PosInf _ = False"
| "js_lt _ NegInf = False"
| "js_lt NegInf _ = True"
| "js_lt _ PosInf = True"

fun js_le :: "jsnum \<Rightarrow> jsnum \<Rightarrow> bool" where
  "js_le NaN _ = False"
| "js_le _ NaN = False"
| "js_le (Fin a) (Fin b) = (a \<le> b)"
| "js_le NegInf _ = True"
| "js_le _ PosInf = True"
| "js_le PosInf _ = False"
| "js_le _ NegInf = False"

definition js_ge :: "jsnum \<Rightarrow> jsnum \<Rightarrow> bool" where
  "js_ge a b = js_le b a"

text \<open>
  A field of an object may hold any JavaScript value; \<open>typeof v === 'number'\<close> holds
  exactly for \<open>JNumber\<close>.
\<close>

datatype jsval = JUndefined | JNull | JBool bool | JString string | JNumber jsnum

fun numberOf :: "jsval \<Rightarrow> jsnum option" where
  "numberOf (JNumber a) = Some a"
| "numberOf _ = None"

section \<open>Data shapes\<close>

text \<open>
  An element of the input array: an \<open>EventItem\<close> (\<open>type\<close>, \<open>value\<close>) merged with the
  bounding box of its marker. \<open>findConnections\<close> tests \<open>x\<close> and \<open>y\<close> with \<open>typeof\<close>, so
  they are arbitrary values; \<open>width\<close> and \<open>height\<close> are numbers, as the interface
  \<open>AnnotationWithBounds\<close> declares them.
\<close>

record event =
  ev_type :: string
  ev_value :: string
  ev_x :: jsval
  ev_y :: jsval
  ev_width :: jsnum
  ev_height :: jsnum

text \<open>An entry of \<open>neumes\<close> or \<open>syllables\<close>: \<open>{ ...bounds, index }\<close>, built after the
  \<open>typeof\<close> guard, so that \<open>x\<close> and \<open>y\<close> are numbers.\<close>

record AnnotationWithBounds =
  a_type :: string
  a_value :: string
  a_x :: jsnum
  a_y :: jsnum
  a_width :: jsnum
  a_height :: jsnum
  a_index :: nat

record Connection =
  neumeId :: nat
  syllableId :: nat
  neumeX :: jsnum
  neumeY :: jsnum
  syllableX :: jsnum
  syllableY :: jsnum

text \<open>The arrays the function works on: its argument \<open>events\<close> and its three locals.\<close>

record fc_state =
  st_events :: "event list"
  st_neumes :: "AnnotationWithBounds list"
  st_syllables :: "AnnotationWithBounds list"
  st_connections :: "Connection list"

section \<open>findConnections\<close>

definition withIndex :: "event \<Rightarrow> jsnum \<Rightarrow> jsnum \<Rightarrow> nat \<Rightarrow> AnnotationWithBounds" where
  "withIndex event x y index =
     \<lparr>a_type = ev_type event, a_value = ev_value event, a_x = x, a_y = y,
      a_width = ev_width event, a_height = ev_height event, a_index = index\<rparr>"

text \<open>The callback of \<open>events.forEach\<close>.\<close>

definition forEach_body :: "fc_state \<Rightarrow> nat \<Rightarrow> fc_state" where
  "forEach_body s index =
     (let event = st_events s ! index in
      case (numberOf (ev_x event), numberOf (ev_y event)) of
        (Some x, Some y) \<Rightarrow>
          if ev_type event = ''neume-type''
          then s\<lparr>st_neumes := st_neumes s @ [withIndex event x y index]\<rparr>
          else s\<lparr>st_syllables := st_syllables s @ [withIndex event x y index]\<rparr>
      | _ \<Rightarrow> s)"

definition separate :: "fc_state \<Rightarrow> fc_state" where
  "separate s = foldl forEach_body s [0..<length (st_events s)]"

definition neumeBottomY :: "AnnotationWithBounds \<Rightarrow> jsnum" where
  "neumeBottomY neume = js_add (a_y neume) (a_height neume)"

definition neumeCenterX :: "AnnotationWithBounds \<Rightarrow> jsnum" where
  "neumeCenterX neume = js_add (a_x neume) (js_div (a_width neume) (Fin 2))"

definition syllableTop :: "AnnotationWithBounds \<Rightarrow> jsnum" where
  "syllableTop syllable = a_y syllable"

definition syllableCenterX :: "AnnotationWithBounds \<Rightarrow> jsnum" where
  "syllableCenterX syllable = js_add (a_x syllable) (js_div (a_width syllable) (Fin 2))"

definition syllableLeft :: "AnnotationWithBounds \<Rightarrow> jsnum" where
  "syllableLeft syllable = a_x syllable"

definition syllableRight :: "AnnotationWithBounds \<Rightarrow> jsnum" where
  "syllableRight syllable = js_add (a_x syllable) (a_width syllable)"

definition isBelow :: "AnnotationWithBounds \<Rightarrow> AnnotationWithBounds \<Rightarrow> bool" where
  "isBelow neume syllable = js_ge (syllableTop syllable) (a_y neume)"

definition isHorizontallyValid :: "AnnotationWithBounds \<Rightarrow> AnnotationWithBounds \<Rightarrow> bool" where
  "isHorizontallyValid neume syllable =
     (js_ge (neumeCenterX neume) (js_sub (syllableLeft syllable) (a_width syllable)) \<and>
      js_le (neumeCenterX neume) (js_add (syllableRight syllable) (a_width syllable)))"

definition verticalDist :: "AnnotationWithBounds \<Rightarrow> AnnotationWithBounds \<Rightarrow> jsnum" where
  "verticalDist neume syllable = js_sub (syllableTop syllable) (neumeBottomY neume)"

definition horizontalDist :: "AnnotationWithBounds \<Rightarrow> AnnotationWithBounds \<Rightarrow> jsnum" where
  "horizontalDist neume syllable = js_abs (js_sub (neumeCenterX neume) (syllableCenterX syllable))"

definition maxVerticalGap :: "AnnotationWithBounds \<Rightarrow> jsnum" where
  "maxVerticalGap neume = js_mul (a_height neume) (Fin 5)"

definition distance :: "AnnotationWithBounds \<Rightarrow> AnnotationWithBounds \<Rightarrow> jsnum" where
  "distance neume syllable =
     js_add (js_mul (verticalDist neume syllable) (Fin 2)) (horizontalDist neume syllable)"

text \<open>The body of the loop over \<open>syllables\<close>, on the pair \<open>(bestSyllable, bestDistance)\<close>.\<close>

definition inner_body ::
  "AnnotationWithBounds \<Rightarrow> AnnotationWithBounds option \<times> jsnum \<Rightarrow> AnnotationWithBounds
     \<Rightarrow> AnnotationWithBounds option \<times> jsnum" where
  "inner_body neume best syllable =
     (if isBelow neume syllable \<and> isHorizontallyValid neume syllable then
        if js_ge (verticalDist neume syllable) (Fin 0) \<and>
           js_lt (verticalDist neume syllable) (maxVerticalGap neume) then
          if js_lt (distance neume syllable) (snd best)
          then (Some syllable, distance neume syllable)
          else best
        else best
      else best)"

definition bestMatch ::
  "AnnotationWithBounds \<Rightarrow> AnnotationWithBounds list \<Rightarrow> AnnotationWithBounds option \<times> jsnum" where
  "bestMatch neume syllables = foldl (inner_body neume) (None, PosInf) syllables"

definition connection :: "AnnotationWithBounds \<Rightarrow> AnnotationWithBounds \<Rightarrow> Connection" where
  "connection neume bestSyllable =
     \<lparr>neumeId = a_index neume,
      syllableId = a_index bestSyllable,
      neumeX = js_add (a_x neume) (js_div (a_width neume) (Fin 2)),
      neumeY = js_add (a_y neume) (a_height neume),
      syllableX = js_add (a_x bestSyllable) (js_div (a_width bestSyllable) (Fin 2)),
      syllableY = a_y bestSyllable\<rparr>"

text \<open>The body of the loop over \<open>neumes\<close>.\<close>

definition outer_body :: "fc_state \<Rightarrow> AnnotationWithBounds \<Rightarrow> fc_state" where
  "outer_body s neume =
     (case fst (bestMatch neume (st_syllables s)) of
        None \<Rightarrow> s
      | Some bestSyllable \<Rightarrow>
          s\<lparr>st_connections := st_connections s @ [connection neume bestSyllable]\<rparr>)"

definition connect :: "fc_state \<Rightarrow> fc_state" where
  "connect s = foldl outer_body s (st_neumes s)"

definition initial :: "event list \<Rightarrow> fc_state" where
  "initial events =
     \<lparr>st_events = events, st_neumes = [], st_syllables = [], st_connections = []\<rparr>"

definition run :: "event list \<Rightarrow> fc_state" where
  "run events = connect (separate (initial events))"

definition findConnections :: "event list \<Rightarrow> Connection list" where
  "findConnections events = st_connections (run events)"

text \<open>The candidate sets the function builds from its input.\<close>

definition neumes :: "event list \<Rightarrow> AnnotationWithBounds list" where
  "neumes events = st_neumes (separate (initial events))"

definition syllables :: "event list \<Rightarrow> AnnotationWithBounds list" where
  "syllables events = st_syllables (separate (initial events))"

text \<open>A syllable is eligible for a neume when it passes the vertical, the horizontal and
  the gap test.\<close>

definition eligible :: "AnnotationWithBounds \<Rightarrow> AnnotationWithBounds \<Rightarrow> bool" where
  "eligible neume syllable \<longleftrightarrow>
     isBelow neume syllable \<and> isHorizontallyValid neume syllable \<and>
     js_ge (verticalDist neume syllable) (Fin 0) \<and>
     js_lt (verticalDist neume syllable) (maxVerticalGap neume)"

section \<open>The selection rule as specified\<close>

text \<open>
  The rule of the specification, stated on bounding boxes and independently of the code
  above: which syllables are eligible for a neume, and how they are scored. All
  arithmetic is that of JavaScript numbers.
\<close>

record boundingBox =
  box_x :: jsnum
  box_y :: jsnum
  box_width :: jsnum
  box_height :: jsnum

text \<open>A record has a bounding box when its \<open>x\<close> and \<open>y\<close> are numbers.\<close>

definition spec_boundingBox :: "event \<Rightarrow> boundingBox option" where
  "spec_boundingBox e =
     (case (ev_x e, ev_y e) of
        (JNumber x, JNumber y) \<Rightarrow>
          Some \<lparr>box_x = x, box_y = y, box_width = ev_width e, box_height = ev_height e\<rparr>
      | _ \<Rightarrow> None)"

text \<open>\<open>Nbottom = N.y + N.height\<close>; the horizontal centre of a box is \<open>x + width / 2\<close>.\<close>

definition spec_bottom :: "boundingBox \<Rightarrow> jsnum" where
  "spec_bottom N = js_add (box_y N) (box_height N)"

definition spec_centerX :: "boundingBox \<Rightarrow> jsnum" where
  "spec_centerX B = js_add (box_x B) (js_div (box_width B) (Fin 2))"

text \<open>\<open>verticalDist = Stop - Nbottom\<close>.\<close>

definition spec_verticalDist :: "boundingBox \<Rightarrow> boundingBox \<Rightarrow> jsnum" where
  "spec_verticalDist N S = js_sub (box_y S) (spec_bottom N)"

text \<open>Vertical eligibility: \<open>Stop \<ge> N.y\<close>.\<close>

definition spec_below :: "boundingBox \<Rightarrow> boundingBox \<Rightarrow> bool" where
  "spec_below N S \<longleftrightarrow> js_le (box_y N) (box_y S)"

text \<open>Horizontal eligibility: \<open>Ncx\<close> lies in \<open>[Sleft - S.width, Sright + S.width]\<close>.\<close>

definition spec_inBand :: "boundingBox \<Rightarrow> boundingBox \<Rightarrow> bool" where
  "spec_inBand N S \<longleftrightarrow>
     js_le (js_sub (box_x S) (box_width S)) (spec_centerX N) \<and>
     js_le (spec_centerX N) (js_add (js_add (box_x S) (box_width S)) (box_width S))"

text \<open>Vertical gap bound: \<open>0 \<le> verticalDist < 5 * N.height\<close>.\<close>

definition spec_gapBound :: "boundingBox \<Rightarrow> boundingBox \<Rightarrow> bool" where
  "spec_gapBound N S \<longleftrightarrow>
     js_le (Fin 0) (spec_verticalDist N S) \<and>
     js_lt (spec_verticalDist N S) (js_mul (Fin 5) (box_height N))"

definition spec_eligible :: "boundingBox \<Rightarrow> boundingBox \<Rightarrow> bool" where
  "spec_eligible N S \<longleftrightarrow> spec_below N S \<and> spec_inBand N S \<and> spec_gapBound N S"

text \<open>\<open>distance = 2 * verticalDist + |Ncx - Scx|\<close>.\<close>

definition spec_distance :: "boundingBox \<Rightarrow> boundingBox \<Rightarrow> jsnum" where
  "spec_distance N S =
     js_add (js_mul (Fin 2) (spec_verticalDist N S))
       (js_abs (js_sub (spec_centerX N) (spec_centerX S)))"

text \<open>The horizontal offset \<open>|Ncx - Scx|\<close> alone.\<close>

definition spec_horizontalDist :: "boundingBox \<Rightarrow> boundingBox \<Rightarrow> jsnum" where
  "spec_horizontalDist N S = js_abs (js_sub (spec_centerX N) (spec_centerX S))"

section \<open>Auxiliary definitions\<close>

text \<open>What the \<open>forEach\<close> callback pushes for the element at a position, if anything.\<close>

definition entry :: "event \<Rightarrow> nat \<Rightarrow> AnnotationWithBounds option" where
  "entry event index =
     (case (numberOf (ev_x event), numberOf (ev_y event)) of
        (Some x, Some y) \<Rightarrow> Some (withIndex event x y index)
      | _ \<Rightarrow> None)"

definition neumeAt :: "event list \<Rightarrow> nat \<Rightarrow> AnnotationWithBounds option" where
  "neumeAt events i =
     (if ev_type (events ! i) = ''neume-type'' then entry (events ! i) i else None)"

definition syllableAt :: "event list \<Rightarrow> nat \<Rightarrow> AnnotationWithBounds option" where
  "syllableAt events i =
     (if ev_type (events ! i) = ''neume-type'' then None else entry (events ! i) i)"

text \<open>The connection the loop over \<open>neumes\<close> pushes for a neume, if any.\<close>

definition choice :: "AnnotationWithBounds list \<Rightarrow> AnnotationWithBounds \<Rightarrow> Connection option" where
  "choice syls neume = map_option (connection neume) (fst (bestMatch neume syls))"


text \<open>Erasing the label of an input element, and of a candidate.\<close>

definition strip :: "event \<Rightarrow> event" where
  "strip e = e\<lparr>ev_value := []\<rparr>"

definition unlabel :: "AnnotationWithBounds \<Rightarrow> AnnotationWithBounds" where
  "unlabel a = a\<lparr>a_value := []\<rparr>"

text \<open>The bounding box of a candidate.\<close>

definition boundsOf :: "AnnotationWithBounds \<Rightarrow> boundingBox" where
  "boundsOf a =
     \<lparr>box_x = a_x a, box_y = a_y a, box_width = a_width a, box_height = a_height a\<rparr>"

text \<open>The number a decimal literal denotes: the double nearest to it.\<close>

definition literal :: "rat \<Rightarrow> jsnum" where
  "literal q = round64 q"

text \<open>An input element with numeric coordinates, for the examples.\<close>

definition box :: "string \<Rightarrow> string \<Rightarrow> rat \<Rightarrow> rat \<Rightarrow> rat \<Rightarrow> rat \<Rightarrow> event" where
  "box t v x y w h =
     \<lparr>ev_type = t, ev_value = v, ev_x = JNumber (Fin x), ev_y = JNumber (Fin y),
      ev_width = Fin w, ev_height = Fin h\<rparr>"

section \<open>Example inputs\<close>

text \<open>A neume box with a syllable box directly below it.\<close>

definition scenarioA :: "event list" where
  "scenarioA =
     [box ''neume-type'' ''punctum'' 0 0 10 10, box ''syllable'' ''al'' 0 15 10 5]"

text \<open>A neume with three eligible syllables; the last two have the same score.\<close>

definition tieExample :: "event list" where
  "tieExample =
     [box ''neume-type'' ''clivis'' 0 0 10 10,
      box ''syllable'' ''lu'' 10 10 10 5,
      box ''syllable'' ''le'' 0 12 10 5,
      box ''syllable'' ''ia'' 4 10 10 5]"

text \<open>A syllable below the neume but far to the right of it.\<close>

definition outOfBand :: "event list" where
  "outOfBand =
     [box ''neume-type'' ''punctum'' 0 0 10 10, box ''syllable'' ''al'' 100 15 10 5]"

text \<open>The nearest box below the neume has no numeric \<open>x\<close>.\<close>

definition malformed :: "event list" where
  "malformed =
     [box ''neume-type'' ''punctum'' 0 0 10 10,
      \<lparr>ev_type = ''syllable'', ev_value = ''al'', ev_x = JUndefined, ev_y = JNumber (Fin 10),
       ev_width = Fin 10, ev_height = Fin 5\<rparr>,
      box ''syllable'' ''le'' 0 15 10 5]"

text \<open>A neume of height zero with a syllable at the same vertical position.\<close>

definition flatNeume :: "event list" where
  "flatNeume =
     [box ''neume-type'' ''punctum'' 0 0 10 0, box ''syllable'' ''al'' 0 0 10 5]"

text \<open>The boxes of \<open>scenarioA\<close> under other labels.\<close>

definition scenarioA_relabelled :: "event list" where
  "scenarioA_relabelled =
     [box ''neume-type'' ''virga'' 0 0 10 10, box ''syllable'' ''ky'' 0 15 10 5]"

text \<open>Two eligible syllables: a wide one whose top touches the neume's bottom and whose
  centre is far to the right, and a centred one a little lower.\<close>

definition wideAndNear :: "event list" where
  "wideAndNear =
     [box ''neume-type'' ''punctum'' 0 0 10 10,
      box ''syllable'' ''al'' 50 10 100 5,
      box ''syllable'' ''le'' 0 11 10 5]"

text \<open>Two eligible syllables: a centred one well below the neume, and one touching the
  neume's bottom, slightly off centre.\<close>

definition nearAndOffCentre :: "event list" where
  "nearAndOffCentre =
     [box ''neume-type'' ''punctum'' 0 0 10 10,
      box ''syllable'' ''al'' 0 15 10 5,
      box ''syllable'' ''le'' 1 10 10 5]"

text \<open>
  Two syllables whose scores, \<open>2 * 31.1 + 6.2\<close> and \<open>2 * 30 + 8.4\<close> up to rounding, both
  come out as the double \<open>68.39999999999999\<close>.
\<close>

definition roundedTie :: "event list" where
  "roundedTie =
     [\<lparr>ev_type = ''neume-type'', ev_value = ''torculus'',
       ev_x = JNumber (literal (27 / 10)), ev_y = JNumber (literal (148 / 10)),
       ev_width = literal 5, ev_height = literal 7\<rparr>,
      \<lparr>ev_type = ''syllable'', ev_value = ''al'',
       ev_x = JNumber (literal (84 / 10)), ev_y = JNumber (literal (529 / 10)),
       ev_width = literal 6, ev_height = literal 5\<rparr>,
      \<lparr>ev_type = ''syllable'', ev_value = ''le'',
       ev_x = JNumber (literal (87 / 10)), ev_y = JNumber (literal (518 / 10)),
       ev_width = literal (98 / 10), ev_height = literal 5\<rparr>]"

text \<open>
  A syllable whose top, \<open>0.7999999999999999\<close>, is the double that \<open>0.1 + 0.7\<close> rounds to:
  the computed gap to the neume's bottom is \<open>0\<close>.
\<close>

definition roundedGap :: "event list" where
  "roundedGap =
     [\<lparr>ev_type = ''neume-type'', ev_value = ''punctum'',
       ev_x = JNumber (literal 0), ev_y = JNumber (literal (1 / 10)),
       ev_width = literal 10, ev_height = literal (7 / 10)\<rparr>,
      \<lparr>ev_type = ''syllable'', ev_value = ''al'',
       ev_x = JNumber (literal 0), ev_y = JNumber (literal (7999999999999999 / 10000000000000000)),
       ev_width = literal 10, ev_height = literal 5\<rparr>]"

text \<open>
  A neume whose computed centre, \<open>24.9 + 1.6 / 2\<close>, is the same double \<open>25.7\<close> as the
  computed left end of the syllable's band, \<open>27.3 - 1.6\<close>.
\<close>

definition roundedBand :: "event list" where
  "roundedBand =
     [\<lparr>ev_type = ''neume-type'', ev_value = ''virga'',
       ev_x = JNumber (literal (249 / 10)), ev_y = JNumber (literal (108 / 10)),
       ev_width = literal (16 / 10), ev_height = literal (56 / 10)\<rparr>,
      \<lparr>ev_type = ''syllable'', ev_value = ''ia'',
       ev_x = JNumber (literal (273 / 10)), ev_y = JNumber (literal (418 / 10)),
       ev_width = literal (16 / 10), ev_height = literal 5\<rparr>]"

section \<open>Rounding to binary64\<close>

lemma pow2_powi: "pow2 k = 2 powi k"
  by (simp add: pow2_def power_int_def power_inverse field_simps)

lemma pow2_pos: "0 < pow2 k"
  by (simp add: pow2_powi)

lemma pow2_add: "pow2 (a + b) = pow2 a * pow2 b"
  by (simp add: pow2_powi power_int_add)

lemma pow2_diff: "pow2 (a - b) = pow2 a / pow2 b"
  by (simp add: pow2_powi power_int_diff)

lemma pow2_mono: "a \<le> b \<Longrightarrow> pow2 a \<le> pow2 b"
  by (simp add: pow2_powi power_int_increasing)

lemma pow2_strict_mono: "a < b \<Longrightarrow> pow2 a < pow2 b"
  by (simp add: pow2_powi power_int_strict_increasing)

lemma bitlen_pow2_bounds:
  assumes "0 < p"
  shows "pow2 (bitlen p - 1) \<le> of_int p \<and> of_int p < pow2 (bitlen p)"
proof -
  have b: "2 ^ nat (bitlen p - 1) \<le> p \<and> p < 2 ^ nat (bitlen p)"
    using assms by (rule bitlen_bounds)
  have pos: "1 \<le> bitlen p"
    using assms bitlen_eq_zero_iff [of p] bitlen_nonneg [of p] by linarith
  have "(of_int (2 ^ nat (bitlen p - 1)) :: rat) \<le> of_int p"
    using b by (simp only: of_int_le_iff)
  moreover have "(of_int p :: rat) < of_int (2 ^ nat (bitlen p))"
    using b by (simp only: of_int_less_iff)
  ultimately show ?thesis
    using pos by (simp add: pow2_def)
qed

text \<open>\<open>ilog2\<close> is the binary exponent.\<close>

lemma ilog2_bounds:
  assumes "0 < x"
  shows "pow2 (ilog2 x) \<le> x \<and> x < pow2 (ilog2 x + 1)"
proof -
  obtain p q where pq: "quotient_of x = (p, q)" by (cases "quotient_of x")
  have q: "0 < q" using pq by (rule quotient_of_denom_pos)
  have x: "x = of_int p / of_int q" using pq by (rule quotient_of_div)
  have p: "0 < p"
    using assms q unfolding x by (simp add: zero_less_divide_iff)
  let ?k = "bitlen p - bitlen q"
  note bp = bitlen_pow2_bounds [OF p] and bq = bitlen_pow2_bounds [OF q]
  have qpos: "(0::rat) < of_int q" using q by simp
  have ppos: "(0::rat) \<le> of_int p" using p by simp
  have "x < pow2 (bitlen p) / pow2 (bitlen q - 1)"
    unfolding x using bp bq ppos pow2_pos [of "bitlen q - 1"]
    by (intro frac_less) simp_all
  then have upper: "x < pow2 (?k + 1)"
    by (simp add: pow2_diff [symmetric] algebra_simps)
  have "pow2 (bitlen p - 1) / pow2 (bitlen q) < x"
    unfolding x using bp bq qpos pow2_pos [of "bitlen p - 1"]
    by (intro frac_less2) simp_all
  then have lower: "pow2 (?k - 1) < x"
    by (simp add: pow2_diff [symmetric] algebra_simps)
  show ?thesis
  proof (cases "pow2 ?k \<le> x")
    case True
    then show ?thesis using upper by (simp add: ilog2_def pq)
  next
    case False
    then show ?thesis using lower by (simp add: ilog2_def pq)
  qed
qed

lemma round_half_even_nonneg: "0 \<le> x \<Longrightarrow> 0 \<le> round_half_even x"
  by (simp add: round_half_even_def Let_def)

lemma round_half_even_close: "\<bar>of_int (round_half_even x) - x\<bar> \<le> 1 / 2"
proof -
  have "of_int \<lfloor>x\<rfloor> \<le> x" "x < of_int \<lfloor>x\<rfloor> + 1" by linarith+
  then show ?thesis
    unfolding round_half_even_def Let_def by (auto simp add: abs_le_iff)
qed

text \<open>The rounded value is a multiple of the spacing, at most half a spacing away.\<close>

lemma round64_candidate_close:
  assumes "ulp = pow2 k"
  shows "\<bar>of_int (round_half_even (x / ulp)) * ulp - x\<bar> \<le> ulp / 2"
proof -
  have u: "0 < ulp" using assms pow2_pos by simp
  have "of_int (round_half_even (x / ulp)) * ulp - x =
          (of_int (round_half_even (x / ulp)) - x / ulp) * ulp"
    using u by (simp add: algebra_simps)
  then have "\<bar>of_int (round_half_even (x / ulp)) * ulp - x\<bar> =
          \<bar>of_int (round_half_even (x / ulp)) - x / ulp\<bar> * ulp"
    using u by (simp add: abs_mult)
  also have "\<dots> \<le> (1 / 2) * ulp"
    using u round_half_even_close [of "x / ulp"] by (intro mult_right_mono) simp_all
  finally show ?thesis by simp
qed

text \<open>
  Below the exponent 1023 the rounded value cannot reach \<open>2^1024\<close>, which gives an
  equation for \<open>round64\<close> that evaluates without computing that bound.
\<close>

lemma round64_no_overflow:
  assumes "x \<noteq> 0" "e = max (ilog2 \<bar>x\<bar>) (- 1022)" "e < 1023"
  shows "\<bar>of_int (round_half_even (x / pow2 (e - 52))) * pow2 (e - 52) - 0\<bar> < pow2 1024"
proof -
  let ?r = "of_int (round_half_even (x / pow2 (e - 52))) * pow2 (e - 52)"
  have "\<bar>x\<bar> < pow2 (ilog2 \<bar>x\<bar> + 1)"
    using assms(1) ilog2_bounds [of "\<bar>x\<bar>"] by simp
  also have "\<dots> \<le> pow2 1023"
    using assms(2,3) by (intro pow2_mono) simp
  finally have x: "\<bar>x\<bar> < pow2 1023" .
  have "\<bar>?r - x\<bar> \<le> pow2 (e - 52) / 2"
    by (rule round64_candidate_close) simp
  also have "\<dots> = pow2 (e - 53)"
    using pow2_add [of "e - 53" 1] by (simp add: pow2_def)
  also have "\<dots> \<le> pow2 1023"
    using assms(3) by (intro pow2_mono) simp
  finally have d: "\<bar>?r - x\<bar> \<le> pow2 1023" .
  have "pow2 1024 = pow2 1023 + pow2 1023"
    using pow2_add [of 1023 1] by (simp add: pow2_def)
  then show ?thesis using x d by linarith
qed

lemma round64_code [code]:
  "round64 x =
     (if x = 0 then Fin 0
      else
        let e = max (ilog2 \<bar>x\<bar>) (- 1022);
            ulp = pow2 (e - 52);
            r = of_int (round_half_even (x / ulp)) * ulp
        in if e < 1023 then Fin r
           else if pow2 1024 \<le> r then PosInf
           else if r \<le> - pow2 1024 then NegInf
           else Fin r)"
proof (cases "x \<noteq> 0 \<and> max (ilog2 \<bar>x\<bar>) (- 1022) < 1023")
  case True
  then have "\<bar>of_int (round_half_even (x / pow2 (max (ilog2 \<bar>x\<bar>) (- 1022) - 52))) *
      pow2 (max (ilog2 \<bar>x\<bar>) (- 1022) - 52) - 0\<bar> < pow2 1024"
    by (intro round64_no_overflow) simp_all
  then show ?thesis
    using True by (simp add: round64_def Let_def abs_less_iff)
next
  case False
  then show ?thesis by (auto simp add: round64_def Let_def)
qed

lemma round64_zero: "round64 0 = Fin 0"
  by (simp add: round64_def)

lemma round64_not_NaN: "round64 x \<noteq> NaN"
  by (simp add: round64_def Let_def)

lemma round64_nonneg: "0 \<le> x \<Longrightarrow> round64 x \<noteq> NegInf"
proof -
  assume x: "0 \<le> x"
  have "\<not> of_int (round_half_even (x / pow2 k)) * pow2 k \<le> - pow2 1024" for k
  proof -
    have "0 \<le> of_int (round_half_even (x / pow2 k)) * pow2 k"
      using x pow2_pos [of k] round_half_even_nonneg [of "x / pow2 k"] by simp
    moreover have "- pow2 1024 < 0" using pow2_pos [of 1024] by simp
    ultimately show ?thesis by linarith
  qed
  then show ?thesis
    by (simp add: round64_def Let_def)
qed

text \<open>Everything from \<open>2^1024\<close> on rounds to \<open>Infinity\<close>.\<close>

lemma round_half_even_ge: "of_int n \<le> x \<Longrightarrow> n \<le> round_half_even x"
proof -
  assume "of_int n \<le> x"
  then have "n \<le> \<lfloor>x\<rfloor>" by (simp add: le_floor_iff)
  then show ?thesis by (simp add: round_half_even_def Let_def)
qed

lemma round64_overflow:
  assumes "pow2 1024 \<le> x"
  shows "round64 x = PosInf"
proof -
  have x: "0 < x" using assms pow2_pos [of 1024] by linarith
  let ?e = "ilog2 x"
  have b: "pow2 ?e \<le> x" "x < pow2 (?e + 1)" using ilog2_bounds [OF x] by simp_all
  have e: "1024 \<le> ?e"
  proof (rule ccontr)
    assume "\<not> 1024 \<le> ?e"
    then have "pow2 (?e + 1) \<le> pow2 1024" by (intro pow2_mono) simp
    then show False using b(2) assms by linarith
  qed
  let ?ulp = "pow2 (?e - 52)"
  have ulp: "0 < ?ulp" by (rule pow2_pos)
  have "pow2 52 * ?ulp = pow2 ?e" using pow2_add [of 52 "?e - 52"] by simp
  then have "of_int (2 ^ 52) * ?ulp \<le> x" using b(1) by (simp add: pow2_def)
  then have "of_int (2 ^ 52) \<le> x / ?ulp" using ulp by (simp add: pos_le_divide_eq)
  then have "2 ^ 52 \<le> round_half_even (x / ?ulp)" by (rule round_half_even_ge)
  then have "(of_int (2 ^ 52) :: rat) \<le> of_int (round_half_even (x / ?ulp))"
    by (simp only: of_int_le_iff)
  then have "of_int (2 ^ 52) * ?ulp \<le> of_int (round_half_even (x / ?ulp)) * ?ulp"
    using ulp by (intro mult_right_mono) simp_all
  then have "pow2 ?e \<le> of_int (round_half_even (x / ?ulp)) * ?ulp"
    using \<open>pow2 52 * ?ulp = pow2 ?e\<close> by (simp add: pow2_def)
  moreover have "pow2 1024 \<le> pow2 ?e" using e by (rule pow2_mono)
  ultimately have "pow2 1024 \<le> of_int (round_half_even (x / ?ulp)) * ?ulp" by linarith
  moreover have "max ?e (- 1022) = ?e" using e by simp
  ultimately show ?thesis
    using x by (simp add: round64_def Let_def)
qed

lemma doubling_overflows: "js_mul (Fin (pow2 1023)) (Fin 2) = PosInf"
proof -
  have "pow2 1023 * 2 = pow2 1024" using pow2_add [of 1023 1] by (simp add: pow2_def)
  then show ?thesis by (simp add: round64_overflow)
qed

text \<open>
  Some values: \<open>0.1\<close> as a double; \<open>0.1 + 0.7\<close> is \<open>0.7999999999999999\<close>; ties go to the
  even significand.
\<close>

lemma literal_tenth: "literal (1 / 10) = Fin (3602879701896397 / 36028797018963968)"
  by code_simp

lemma sum_is_rounded:
  "js_add (literal (1 / 10)) (literal (7 / 10)) =
     literal (7999999999999999 / 10000000000000000)"
  by code_simp

lemma ties_to_even:
  "round64 (2 ^ 53 + 1) = Fin (2 ^ 53)" "round64 (2 ^ 53 + 3) = Fin (2 ^ 53 + 4)"
  by code_simp+

section \<open>Arithmetic and comparison of numbers\<close>

lemma js_lt_irrefl: "\<not> js_lt a a"
  by (cases a) auto

lemma js_lt_not_lt: "js_lt d' d \<Longrightarrow> \<not> js_lt a d \<Longrightarrow> \<not> js_lt a d'"
  by (cases a; cases d; cases d') auto

lemma js_not_lt_le: "a \<noteq> NaN \<Longrightarrow> b \<noteq> NaN \<Longrightarrow> \<not> js_lt a b \<Longrightarrow> js_le b a"
  by (cases a; cases b) auto

lemma js_lt_PosInf: "js_lt a PosInf \<longleftrightarrow> a \<noteq> NaN \<and> a \<noteq> PosInf"
  by (cases a) auto

lemma js_le_not_lt: "js_le a b \<Longrightarrow> \<not> js_lt b a"
  by (cases a; cases b) auto

lemma js_le_neq_lt: "js_le a b \<Longrightarrow> a \<noteq> b \<Longrightarrow> js_lt a b"
  by (cases a; cases b) auto

lemma js_lt_asym: "js_lt a b \<Longrightarrow> \<not> js_lt b a"
  by (cases a; cases b) auto

lemma js_lt_below_PosInf: "js_lt a b \<Longrightarrow> js_lt a PosInf"
  by (cases a; cases b) auto

lemma js_add_NaN:
  "js_add a b = NaN \<longleftrightarrow>
     a = NaN \<or> b = NaN \<or> (a = PosInf \<and> b = NegInf) \<or> (a = NegInf \<and> b = PosInf)"
  by (cases a; cases b) (simp_all add: round64_not_NaN)

lemma js_neg_NaN: "js_neg a = NaN \<longleftrightarrow> a = NaN"
  by (cases a) simp_all

lemma js_abs_NaN: "js_abs a = NaN \<longleftrightarrow> a = NaN"
  by (cases a) simp_all

lemma js_half_NaN: "js_div a (Fin 2) = NaN \<longleftrightarrow> a = NaN"
  by (cases a) (simp_all add: round64_not_NaN)

lemma js_mul_commute: "js_mul a b = js_mul b a"
  by (cases a; cases b) (auto simp add: mult.commute)

lemma gap_finite:
  "js_ge v (Fin 0) \<Longrightarrow> js_lt v g \<Longrightarrow> \<exists>r. v = Fin r \<and> 0 \<le> r"
  by (cases v; cases g) (auto simp add: js_ge_def)

lemma band_left_finite: "js_ge (Fin c) (js_sub sx sw) \<Longrightarrow> sx \<noteq> PosInf \<and> sx \<noteq> NaN \<and> sw \<noteq> NaN"
  by (cases sx; cases sw) (auto simp add: js_ge_def js_sub_def)

lemma band_right_finite: "js_le (Fin c) (js_add (js_add sx sw) sw) \<Longrightarrow> sx \<noteq> NegInf"
  by (cases sx; cases sw) auto

lemma band_offset_not_NaN:
  assumes "js_ge (Fin c) (js_sub sx sw)" "js_le (Fin c) (js_add (js_add sx sw) sw)"
  shows "js_abs (js_sub (Fin c) (js_add sx (js_div sw (Fin 2)))) \<noteq> NaN"
proof -
  obtain x where x: "sx = Fin x"
    using band_left_finite [OF assms(1)] band_right_finite [OF assms(2)] by (cases sx) auto
  have "sw \<noteq> NaN" using band_left_finite [OF assms(1)] by simp
  then show ?thesis
    by (simp add: x js_abs_NaN js_sub_def js_add_NaN js_neg_NaN js_half_NaN)
qed

lemma finite_offset_center:
  "js_lt (js_add t (js_abs (js_sub c m))) PosInf \<Longrightarrow> \<exists>r. c = Fin r"
  by (cases c; cases m; cases t) (auto simp add: js_sub_def)

lemma score_not_NaN:
  assumes "0 \<le> r" "h \<noteq> NaN"
  shows "js_add (js_mul (Fin r) (Fin 2)) (js_abs h) \<noteq> NaN"
proof -
  have "round64 (r * 2) \<noteq> NegInf" using assms(1) by (simp add: round64_nonneg)
  moreover have "js_abs h \<noteq> NegInf" by (cases h) simp_all
  ultimately show ?thesis
    using assms(2) by (simp add: js_add_NaN js_abs_NaN round64_not_NaN)
qed

section \<open>The two outer loops\<close>

text \<open>Both loops only append to the local arrays; their results are described by
  \<open>neumeAt\<close>, \<open>syllableAt\<close> and \<open>choice\<close>.\<close>

lemma forEach_body_events: "st_events (forEach_body s i) = st_events s"
  by (simp add: forEach_body_def Let_def split: option.splits)

lemma forEach_body_connections: "st_connections (forEach_body s i) = st_connections s"
  by (simp add: forEach_body_def Let_def split: option.splits)

lemma forEach_body_neumes:
  "st_neumes (forEach_body s i) =
     st_neumes s @ (case neumeAt (st_events s) i of None \<Rightarrow> [] | Some n \<Rightarrow> [n])"
  by (simp add: forEach_body_def neumeAt_def entry_def Let_def split: option.splits)

lemma forEach_body_syllables:
  "st_syllables (forEach_body s i) =
     st_syllables s @ (case syllableAt (st_events s) i of None \<Rightarrow> [] | Some n \<Rightarrow> [n])"
  by (simp add: forEach_body_def syllableAt_def entry_def Let_def split: option.splits)

lemma forEach_loop:
  "st_events (foldl forEach_body s is) = st_events s \<and>
   st_connections (foldl forEach_body s is) = st_connections s \<and>
   st_neumes (foldl forEach_body s is) = st_neumes s @ List.map_filter (neumeAt (st_events s)) is \<and>
   st_syllables (foldl forEach_body s is) =
     st_syllables s @ List.map_filter (syllableAt (st_events s)) is"
proof (induction "is" arbitrary: s)
  case Nil
  show ?case by (simp add: map_filter_simps)
next
  case (Cons i "is")
  show ?case
    by (simp add: Cons.IH forEach_body_events forEach_body_connections forEach_body_neumes
        forEach_body_syllables map_filter_simps split: option.splits)
qed

lemma neumes_eq: "neumes events = List.map_filter (neumeAt events) [0..<length events]"
  by (simp add: neumes_def separate_def forEach_loop) (simp add: initial_def)

lemma syllables_eq: "syllables events = List.map_filter (syllableAt events) [0..<length events]"
  by (simp add: syllables_def separate_def forEach_loop) (simp add: initial_def)

lemma separate_events: "st_events (separate s) = st_events s"
  by (simp add: separate_def forEach_loop)

lemma separate_connections: "st_connections (separate s) = st_connections s"
  by (simp add: separate_def forEach_loop)

lemma outer_body_frame:
  "st_events (outer_body s n) = st_events s \<and> st_syllables (outer_body s n) = st_syllables s \<and>
   st_neumes (outer_body s n) = st_neumes s"
  by (simp add: outer_body_def split: option.splits)

lemma outer_body_connections:
  "st_connections (outer_body s n) =
     st_connections s @ (case choice (st_syllables s) n of None \<Rightarrow> [] | Some c \<Rightarrow> [c])"
  by (simp add: outer_body_def choice_def split: option.splits)

lemma outer_loop:
  "st_events (foldl outer_body s ns) = st_events s \<and>
   st_syllables (foldl outer_body s ns) = st_syllables s \<and>
   st_connections (foldl outer_body s ns) =
     st_connections s @ List.map_filter (choice (st_syllables s)) ns"
proof (induction ns arbitrary: s)
  case Nil
  show ?case by (simp add: map_filter_simps)
next
  case (Cons n ns)
  show ?case
    by (simp add: Cons.IH outer_body_frame outer_body_connections map_filter_simps
        split: option.splits)
qed

lemma findConnections_eq:
  "findConnections events = List.map_filter (choice (syllables events)) (neumes events)"
  by (simp add: findConnections_def run_def connect_def outer_loop separate_connections
      neumes_def syllables_def) (simp add: initial_def)

lemma run_events: "st_events (run events) = events"
  by (simp add: run_def connect_def outer_loop separate_events) (simp add: initial_def)

section \<open>The candidate sets\<close>

lemma entry_Some:
  "entry e i = Some a \<longleftrightarrow> (\<exists>x y. ev_x e = JNumber x \<and> ev_y e = JNumber y \<and> a = withIndex e x y i)"
  by (cases "ev_x e"; cases "ev_y e") (auto simp add: entry_def)

lemma entry_index: "entry e i = Some a \<Longrightarrow> a_index a = i"
  by (auto simp add: entry_Some withIndex_def)

lemma neumeAt_index: "neumeAt events i = Some a \<Longrightarrow> a_index a = i"
  by (auto simp add: neumeAt_def entry_index split: if_splits)

lemma syllableAt_index: "syllableAt events i = Some a \<Longrightarrow> a_index a = i"
  by (auto simp add: syllableAt_def entry_index split: if_splits)

lemma set_map_filter: "set (List.map_filter f xs) = {y. \<exists>x\<in>set xs. f x = Some y}"
  by (induction xs) (auto simp add: map_filter_simps split: option.splits)

lemma map_filter_map: "List.map_filter f (map g xs) = List.map_filter (\<lambda>x. f (g x)) xs"
  by (induction xs) (auto split: option.splits)

lemma map_map_filter: "map g (List.map_filter f xs) = List.map_filter (\<lambda>x. map_option g (f x)) xs"
  by (induction xs) (auto split: option.splits)

lemma map_filter_cong_set:
  "(\<And>x. x \<in> set xs \<Longrightarrow> f x = g x) \<Longrightarrow> List.map_filter f xs = List.map_filter g xs"
  by (induction xs) (auto split: option.splits)

lemma neumes_mem:
  "a \<in> set (neumes events) \<longleftrightarrow> (\<exists>i<length events. neumeAt events i = Some a)"
  by (auto simp add: neumes_eq set_map_filter)

lemma syllables_mem:
  "a \<in> set (syllables events) \<longleftrightarrow> (\<exists>i<length events. syllableAt events i = Some a)"
  by (auto simp add: syllables_eq set_map_filter)

lemma neumes_source:
  assumes "a \<in> set (neumes events)"
  shows "a_index a < length events \<and> ev_type (events ! a_index a) = ''neume-type'' \<and>
    (\<exists>x y. ev_x (events ! a_index a) = JNumber x \<and> ev_y (events ! a_index a) = JNumber y \<and>
       a = withIndex (events ! a_index a) x y (a_index a))"
proof -
  obtain i where i: "i < length events" "neumeAt events i = Some a"
    using assms neumes_mem by blast
  then have "a_index a = i" by (simp add: neumeAt_index)
  then show ?thesis
    using i by (auto simp add: neumeAt_def entry_Some split: if_splits)
qed

lemma syllables_source:
  assumes "a \<in> set (syllables events)"
  shows "a_index a < length events \<and> ev_type (events ! a_index a) \<noteq> ''neume-type'' \<and>
    (\<exists>x y. ev_x (events ! a_index a) = JNumber x \<and> ev_y (events ! a_index a) = JNumber y \<and>
       a = withIndex (events ! a_index a) x y (a_index a))"
proof -
  obtain i where i: "i < length events" "syllableAt events i = Some a"
    using assms syllables_mem by blast
  then have "a_index a = i" by (simp add: syllableAt_index)
  then show ?thesis
    using i by (auto simp add: syllableAt_def entry_Some split: if_splits)
qed

lemma neumes_index_inj:
  assumes "a_index n' = a_index n" "n \<in> set (neumes events)" "n' \<in> set (neumes events)"
  shows "n' = n"
proof -
  obtain i i' where "neumeAt events i = Some n" "neumeAt events i' = Some n'"
    using assms(2,3) neumes_mem by blast
  then show ?thesis
    using assms(1) neumeAt_index by fastforce
qed

lemma sorted_map_filter:
  assumes "\<And>x y. f x = Some y \<Longrightarrow> g y = h x" "sorted_wrt (<) (map h xs)"
  shows "sorted_wrt (<) (map g (List.map_filter f xs))"
  using assms(2)
proof (induction xs)
  case Nil
  show ?case by (simp add: map_filter_simps)
next
  case (Cons x xs)
  then show ?case
    using assms(1) by (auto simp add: map_filter_simps set_map_filter split: option.splits)
qed

lemma neumes_sorted: "sorted_wrt (<) (map a_index (neumes events))"
  unfolding neumes_eq
  by (rule sorted_map_filter [where h = "\<lambda>i. i"]) (simp_all add: neumeAt_index)

lemma syllables_sorted: "sorted_wrt (<) (map a_index (syllables events))"
  unfolding syllables_eq
  by (rule sorted_map_filter [where h = "\<lambda>i. i"]) (simp_all add: syllableAt_index)

lemma sorted_single:
  fixes f :: "'a \<Rightarrow> nat"
  assumes "sorted_wrt (<) (map f xs)" "set xs = {a}"
  shows "xs = [a]"
proof (cases xs)
  case Nil
  then show ?thesis using assms(2) by simp
next
  case (Cons x rest)
  have x: "x = a" using assms(2) Cons by auto
  have "rest = []"
  proof (rule ccontr)
    assume "rest \<noteq> []"
    then obtain y where y: "y \<in> set rest" by (cases rest) auto
    then have "y = a" using assms(2) Cons by auto
    moreover have "f x < f y" using assms(1) Cons y by simp
    ultimately show False using x by simp
  qed
  then show ?thesis using Cons x by simp
qed

lemma sorted_pair:
  fixes f :: "'a \<Rightarrow> nat"
  assumes "sorted_wrt (<) (map f xs)" "set xs = {a, b}" "f a < f b"
  shows "xs = [a, b]"
proof (cases xs)
  case Nil
  then show ?thesis using assms(2) by simp
next
  case (Cons x rest)
  have less: "\<forall>y\<in>set rest. f x < f y" using assms(1) Cons by simp
  have ab: "a \<noteq> b" using assms(3) by auto
  have x: "x = a"
  proof (rule ccontr)
    assume "x \<noteq> a"
    then have "x = b" "a \<in> set rest" using assms(2) Cons by auto
    then show False using less assms(3) by force
  qed
  have "a \<notin> set rest" using less x by auto
  then have "set rest = {b}" using assms(2) Cons x ab by auto
  moreover have "sorted_wrt (<) (map f rest)" using assms(1) Cons by simp
  ultimately have "rest = [b]" by (rule sorted_single [rotated])
  then show ?thesis using Cons x by simp
qed

lemma syllables_index_inj:
  assumes "a_index s' = a_index s" "s \<in> set (syllables events)" "s' \<in> set (syllables events)"
  shows "s' = s"
proof -
  obtain i i' where "syllableAt events i = Some s" "syllableAt events i' = Some s'"
    using assms(2,3) syllables_mem by blast
  then show ?thesis
    using assms(1) syllableAt_index by fastforce
qed

section \<open>The search for the best syllable\<close>

lemma bestMatch_snoc: "bestMatch n (xs @ [x]) = inner_body n (bestMatch n xs) x"
  by (simp add: bestMatch_def)

lemma bestMatch_Nil: "bestMatch n [] = (None, PosInf)"
  by (simp add: bestMatch_def)

lemma inner_body_eq:
  "inner_body n best s =
     (if eligible n s \<and> js_lt (distance n s) (snd best) then (Some s, distance n s) else best)"
  by (simp add: inner_body_def eligible_def)

lemma bestMatch_snd:
  "snd (bestMatch n syls) = (case fst (bestMatch n syls) of None \<Rightarrow> PosInf | Some b \<Rightarrow> distance n b)"
  by (induction syls rule: rev_induct) (simp_all add: bestMatch_Nil bestMatch_snoc inner_body_eq)

lemma bestMatch_Some:
  "fst (bestMatch n syls) = Some b \<Longrightarrow> b \<in> set syls \<and> eligible n b \<and> js_lt (distance n b) PosInf"
proof (induction syls arbitrary: b rule: rev_induct)
  case Nil
  then show ?case by (simp add: bestMatch_Nil)
next
  case (snoc x xs)
  show ?case
  proof (cases "eligible n x \<and> js_lt (distance n x) (snd (bestMatch n xs))")
    case True
    then have "b = x"
      using snoc.prems by (simp add: bestMatch_snoc inner_body_eq)
    moreover have "js_lt (distance n x) PosInf"
      using True by (cases "distance n x"; cases "snd (bestMatch n xs)") auto
    ultimately show ?thesis using True by simp
  next
    case False
    then have "fst (bestMatch n xs) = Some b"
      using snoc.prems by (auto simp add: bestMatch_snoc inner_body_eq)
    then show ?thesis using snoc.IH by simp
  qed
qed

lemma bestMatch_min:
  "s \<in> set syls \<Longrightarrow> eligible n s \<Longrightarrow> \<not> js_lt (distance n s) (snd (bestMatch n syls))"
proof (induction syls rule: rev_induct)
  case Nil
  then show ?case by simp
next
  case (snoc x xs)
  show ?case
  proof (cases "eligible n x \<and> js_lt (distance n x) (snd (bestMatch n xs))")
    case True
    then have new: "snd (bestMatch n (xs @ [x])) = distance n x"
      by (simp add: bestMatch_snoc inner_body_eq)
    show ?thesis
    proof (cases "s = x")
      case True
      then show ?thesis using new by (simp add: js_lt_irrefl)
    next
      case False
      then have "\<not> js_lt (distance n s) (snd (bestMatch n xs))"
        using snoc by simp
      then show ?thesis using True new js_lt_not_lt by metis
    qed
  next
    case False
    then have same: "bestMatch n (xs @ [x]) = bestMatch n xs"
      by (auto simp add: bestMatch_snoc inner_body_eq)
    show ?thesis
    proof (cases "s = x")
      case True
      then show ?thesis using False same snoc.prems by simp
    next
      case False
      then show ?thesis using same snoc by simp
    qed
  qed
qed

lemma bestMatch_first:
  "fst (bestMatch n syls) = Some b \<Longrightarrow>
     \<exists>pre post. syls = pre @ b # post \<and>
       (\<forall>s\<in>set pre. eligible n s \<longrightarrow> distance n s \<noteq> distance n b)"
proof (induction syls arbitrary: b rule: rev_induct)
  case Nil
  then show ?case by (simp add: bestMatch_Nil)
next
  case (snoc x xs)
  show ?case
  proof (cases "eligible n x \<and> js_lt (distance n x) (snd (bestMatch n xs))")
    case True
    then have b: "b = x"
      using snoc.prems by (simp add: bestMatch_snoc inner_body_eq)
    have "\<forall>s\<in>set xs. eligible n s \<longrightarrow> distance n s \<noteq> distance n x"
      using True bestMatch_min [of _ xs n] by metis
    then show ?thesis using b by blast
  next
    case False
    then have "fst (bestMatch n xs) = Some b"
      using snoc.prems by (auto simp add: bestMatch_snoc inner_body_eq)
    then obtain pre post where
      "xs = pre @ b # post" "\<forall>s\<in>set pre. eligible n s \<longrightarrow> distance n s \<noteq> distance n b"
      using snoc.IH by blast
    then have "xs @ [x] = pre @ b # (post @ [x])" by simp
    then show ?thesis
      using \<open>\<forall>s\<in>set pre. eligible n s \<longrightarrow> distance n s \<noteq> distance n b\<close> by blast
  qed
qed

lemma bestMatch_None:
  "fst (bestMatch n syls) = None \<Longrightarrow> s \<in> set syls \<Longrightarrow> eligible n s \<Longrightarrow> \<not> js_lt (distance n s) PosInf"
  using bestMatch_min [of s syls n] by (simp add: bestMatch_snd)

lemma finite_distance_center:
  assumes "eligible n b" "js_lt (distance n b) PosInf"
  shows "\<exists>r. neumeCenterX n = Fin r"
proof -
  obtain v where v: "verticalDist n b = Fin v"
    using assms(1) gap_finite unfolding eligible_def by blast
  show ?thesis
    using assms(2) finite_offset_center
    unfolding distance_def horizontalDist_def v by simp
qed

lemma eligible_distance_not_NaN:
  assumes "eligible n s" "neumeCenterX n = Fin c"
  shows "distance n s \<noteq> NaN"
proof -
  obtain r where r: "verticalDist n s = Fin r"
    using assms(1) gap_finite unfolding eligible_def by blast
  have "horizontalDist n s \<noteq> NaN"
    using assms(1) band_offset_not_NaN
    unfolding eligible_def isHorizontallyValid_def horizontalDist_def syllableCenterX_def
      syllableLeft_def syllableRight_def assms(2)
    by blast
  moreover have "0 \<le> r"
    using assms(1) gap_finite r unfolding eligible_def by fastforce
  ultimately show ?thesis
    unfolding distance_def r horizontalDist_def
    using score_not_NaN [of r "js_sub (neumeCenterX n) (syllableCenterX s)"]
    by (simp add: js_abs_NaN)
qed

lemma bestMatch_le:
  assumes "fst (bestMatch n syls) = Some b" "s \<in> set syls" "eligible n s"
  shows "js_le (distance n b) (distance n s)"
proof -
  have b: "eligible n b" "js_lt (distance n b) PosInf"
    using bestMatch_Some [OF assms(1)] by simp_all
  then obtain c where c: "neumeCenterX n = Fin c"
    using finite_distance_center by blast
  have "\<not> js_lt (distance n s) (distance n b)"
    using bestMatch_min [OF assms(2,3)] assms(1) by (simp add: bestMatch_snd)
  moreover have "distance n b \<noteq> NaN"
    using b(1) c eligible_distance_not_NaN by blast
  moreover have "distance n s \<noteq> NaN"
    using assms(3) c eligible_distance_not_NaN by blast
  ultimately show ?thesis using js_not_lt_le by blast
qed

lemma bestMatch_pair_iff:
  assumes "eligible n a" "eligible n b" "a \<noteq> b"
    and "syls = [a, b] \<or> syls = [b, a]"
  shows "fst (bestMatch n syls) = Some a \<longleftrightarrow>
     js_lt (distance n a) (distance n b) \<or>
     (distance n a = distance n b \<and> js_lt (distance n a) PosInf \<and> syls = [a, b])"
proof
  assume cond: "js_lt (distance n a) (distance n b) \<or>
     (distance n a = distance n b \<and> js_lt (distance n a) PosInf \<and> syls = [a, b])"
  have fin: "js_lt (distance n a) PosInf"
    using cond js_lt_below_PosInf by blast
  have nb: "\<not> js_lt (distance n b) (distance n a)"
    using cond js_lt_asym js_lt_irrefl by metis
  show "fst (bestMatch n syls) = Some a"
  proof (cases "syls = [a, b]")
    case True
    then show ?thesis
      using assms(1,2) fin nb by (simp add: bestMatch_def inner_body_eq)
  next
    case False
    then have syls: "syls = [b, a]" and lt: "js_lt (distance n a) (distance n b)"
      using cond assms(4) by auto
    show ?thesis
      using assms(1,2) fin lt unfolding syls
      by (simp add: bestMatch_def inner_body_eq)
  qed
next
  assume best: "fst (bestMatch n syls) = Some a"
  have fin: "js_lt (distance n a) PosInf"
    using bestMatch_Some [OF best] by simp
  have mem: "b \<in> set syls" using assms(4) by auto
  have le: "js_le (distance n a) (distance n b)"
    using best mem assms(2) by (rule bestMatch_le)
  show "js_lt (distance n a) (distance n b) \<or>
     (distance n a = distance n b \<and> js_lt (distance n a) PosInf \<and> syls = [a, b])"
  proof (cases "syls = [a, b]")
    case True
    then show ?thesis using le fin js_le_neq_lt by blast
  next
    case False
    then have syls: "syls = [b, a]" using assms(4) by simp
    obtain pre post where pre: "syls = pre @ a # post"
      "\<forall>s\<in>set pre. eligible n s \<longrightarrow> distance n s \<noteq> distance n a"
      using bestMatch_first [OF best] by blast
    have "pre = [b]"
      using pre(1) assms(3) unfolding syls by (cases pre) (auto simp add: Cons_eq_append_conv)
    then have "distance n b \<noteq> distance n a" using pre(2) assms(2) by simp
    then show ?thesis using le js_le_neq_lt by metis
  qed
qed

section \<open>The emitted connections\<close>

lemma choice_Some:
  "choice syls n = Some c \<longleftrightarrow> (\<exists>b. fst (bestMatch n syls) = Some b \<and> c = connection n b)"
  by (auto simp add: choice_def)

lemma connection_ids: "neumeId (connection n b) = a_index n" "syllableId (connection n b) = a_index b"
  by (simp_all add: connection_def)

lemma findConnections_sorted: "sorted_wrt (<) (map neumeId (findConnections events))"
  unfolding findConnections_eq
  by (rule sorted_map_filter [where h = a_index]) (auto simp add: choice_Some connection_ids neumes_sorted)

lemma findConnections_mem:
  "c \<in> set (findConnections events) \<longleftrightarrow>
     (\<exists>n b. n \<in> set (neumes events) \<and> fst (bestMatch n (syllables events)) = Some b \<and>
        c = connection n b)"
  by (auto simp add: findConnections_eq set_map_filter choice_Some)

lemma connection_sound:
  assumes "c \<in> set (findConnections events)"
  shows "\<exists>n b nx ny sx sy.
    n \<in> set (neumes events) \<and> b \<in> set (syllables events) \<and>
    fst (bestMatch n (syllables events)) = Some b \<and> eligible n b \<and> c = connection n b \<and>
    neumeId c < length events \<and> syllableId c < length events \<and>
    ev_type (events ! neumeId c) = ''neume-type'' \<and>
    ev_type (events ! syllableId c) \<noteq> ''neume-type'' \<and>
    ev_x (events ! neumeId c) = JNumber nx \<and> ev_y (events ! neumeId c) = JNumber ny \<and>
    ev_x (events ! syllableId c) = JNumber sx \<and> ev_y (events ! syllableId c) = JNumber sy \<and>
    n = withIndex (events ! neumeId c) nx ny (neumeId c) \<and>
    b = withIndex (events ! syllableId c) sx sy (syllableId c)"
proof -
  obtain n b where nb: "n \<in> set (neumes events)"
      "fst (bestMatch n (syllables events)) = Some b" "c = connection n b"
    using assms findConnections_mem by blast
  have b: "b \<in> set (syllables events)" "eligible n b"
    using bestMatch_Some [OF nb(2)] by simp_all
  have ids: "neumeId c = a_index n" "syllableId c = a_index b"
    using nb(3) by (simp_all add: connection_ids)
  show ?thesis
    using neumes_source [OF nb(1)] syllables_source [OF b(1)] nb b unfolding ids by blast
qed

section \<open>Erasing labels\<close>

lemma withIndex_strip: "withIndex (strip e) x y i = unlabel (withIndex e x y i)"
  by (simp add: withIndex_def strip_def unlabel_def)

lemma entry_strip: "entry (strip e) i = map_option unlabel (entry e i)"
  by (simp add: entry_def withIndex_def strip_def unlabel_def split: option.splits)

lemma neumeAt_strip:
  "i < length events \<Longrightarrow> neumeAt (map strip events) i = map_option unlabel (neumeAt events i)"
  by (simp add: neumeAt_def entry_strip) (simp add: strip_def)

lemma syllableAt_strip:
  "i < length events \<Longrightarrow> syllableAt (map strip events) i = map_option unlabel (syllableAt events i)"
  by (simp add: syllableAt_def entry_strip) (simp add: strip_def)

lemma neumes_strip: "neumes (map strip events) = map unlabel (neumes events)"
  unfolding neumes_eq map_map_filter length_map
  by (rule map_filter_cong_set) (simp add: neumeAt_strip)

lemma syllables_strip: "syllables (map strip events) = map unlabel (syllables events)"
  unfolding syllables_eq map_map_filter length_map
  by (rule map_filter_cong_set) (simp add: syllableAt_strip)

lemma eligible_unlabel: "eligible (unlabel n) (unlabel s) = eligible n s"
  by (simp add: eligible_def isBelow_def isHorizontallyValid_def verticalDist_def
      maxVerticalGap_def neumeBottomY_def neumeCenterX_def syllableTop_def syllableLeft_def
      syllableRight_def unlabel_def)

lemma distance_unlabel: "distance (unlabel n) (unlabel s) = distance n s"
  by (simp add: distance_def verticalDist_def horizontalDist_def neumeBottomY_def
      neumeCenterX_def syllableTop_def syllableCenterX_def unlabel_def)

lemma connection_unlabel: "connection (unlabel n) (unlabel b) = connection n b"
  by (simp add: connection_def unlabel_def)

lemma bestMatch_unlabel:
  "bestMatch (unlabel n) (map unlabel syls) =
     (map_option unlabel (fst (bestMatch n syls)), snd (bestMatch n syls))"
proof (induction syls rule: rev_induct)
  case Nil
  show ?case by (simp add: bestMatch_Nil)
next
  case (snoc x xs)
  have "bestMatch (unlabel n) (map unlabel (xs @ [x])) =
          inner_body (unlabel n) (bestMatch (unlabel n) (map unlabel xs)) (unlabel x)"
    by (simp add: bestMatch_snoc)
  then show ?case
    by (simp add: snoc.IH bestMatch_snoc inner_body_eq eligible_unlabel distance_unlabel)
qed

lemma choice_unlabel: "choice (map unlabel syls) (unlabel n) = choice syls n"
  by (cases "fst (bestMatch n syls)")
    (simp_all add: choice_def bestMatch_unlabel connection_unlabel)

lemma findConnections_strip: "findConnections (map strip events) = findConnections events"
  by (simp add: findConnections_eq neumes_strip syllables_strip map_filter_map choice_unlabel)

lemma strip_agree:
  assumes "length evs = length evs'"
    and "\<forall>i<length evs. ev_type (evs ! i) = ev_type (evs' ! i) \<and>
           ev_x (evs ! i) = ev_x (evs' ! i) \<and> ev_y (evs ! i) = ev_y (evs' ! i) \<and>
           ev_width (evs ! i) = ev_width (evs' ! i) \<and>
           ev_height (evs ! i) = ev_height (evs' ! i)"
  shows "map strip evs = map strip evs'"
proof (rule nth_equalityI)
  show "length (map strip evs) = length (map strip evs')" using assms(1) by simp
next
  fix i assume "i < length (map strip evs)"
  then have i: "i < length evs" "i < length evs'" using assms(1) by simp_all
  then have "strip (evs ! i) = strip (evs' ! i)"
    using assms(2) by (simp add: strip_def)
  then show "map strip evs ! i = map strip evs' ! i" using i by simp
qed

section \<open>The code against the specified rule\<close>

text \<open>The tests and the score of the code are those of the specification, taken on the
  bounding boxes of the candidates.\<close>

lemma spec_boundingBox_Some:
  "spec_boundingBox e = Some B \<longleftrightarrow>
     (\<exists>x y. ev_x e = JNumber x \<and> ev_y e = JNumber y \<and>
        B = \<lparr>box_x = x, box_y = y, box_width = ev_width e, box_height = ev_height e\<rparr>)"
  by (cases "ev_x e"; cases "ev_y e") (auto simp add: spec_boundingBox_def)

lemma boundsOf_withIndex:
  "boundsOf (withIndex e x y i) =
     \<lparr>box_x = x, box_y = y, box_width = ev_width e, box_height = ev_height e\<rparr>"
  by (simp add: boundsOf_def withIndex_def)

lemma entry_boundingBox:
  "entry e i = Some a \<longleftrightarrow> a_index a = i \<and> a_type a = ev_type e \<and> a_value a = ev_value e \<and>
     spec_boundingBox e = Some (boundsOf a)"
proof
  assume "entry e i = Some a"
  then show "a_index a = i \<and> a_type a = ev_type e \<and> a_value a = ev_value e \<and>
     spec_boundingBox e = Some (boundsOf a)"
    by (auto simp add: entry_Some spec_boundingBox_Some boundsOf_withIndex) (simp_all add: withIndex_def)
next
  assume h: "a_index a = i \<and> a_type a = ev_type e \<and> a_value a = ev_value e \<and>
     spec_boundingBox e = Some (boundsOf a)"
  then obtain x y where xy: "ev_x e = JNumber x" "ev_y e = JNumber y"
    "boundsOf a = \<lparr>box_x = x, box_y = y, box_width = ev_width e, box_height = ev_height e\<rparr>"
    by (auto simp add: spec_boundingBox_Some)
  have "a = withIndex e x y i"
    using h xy(3) by (simp add: withIndex_def boundsOf_def)
  then show "entry e i = Some a"
    using xy(1,2) by (auto simp add: entry_Some)
qed

lemma verticalDist_spec: "verticalDist n s = spec_verticalDist (boundsOf n) (boundsOf s)"
  by (simp add: verticalDist_def spec_verticalDist_def spec_bottom_def neumeBottomY_def
      syllableTop_def boundsOf_def)

lemma horizontalDist_spec: "horizontalDist n s = spec_horizontalDist (boundsOf n) (boundsOf s)"
  by (simp add: horizontalDist_def spec_horizontalDist_def spec_centerX_def neumeCenterX_def
      syllableCenterX_def boundsOf_def)

lemma isBelow_spec: "isBelow n s = spec_below (boundsOf n) (boundsOf s)"
  by (simp add: isBelow_def spec_below_def syllableTop_def js_ge_def boundsOf_def)

lemma isHorizontallyValid_spec: "isHorizontallyValid n s = spec_inBand (boundsOf n) (boundsOf s)"
  by (simp add: isHorizontallyValid_def spec_inBand_def spec_centerX_def neumeCenterX_def
      syllableLeft_def syllableRight_def js_ge_def boundsOf_def)

lemma gap_spec:
  "js_ge (verticalDist n s) (Fin 0) \<and> js_lt (verticalDist n s) (maxVerticalGap n) \<longleftrightarrow>
     spec_gapBound (boundsOf n) (boundsOf s)"
  by (simp add: spec_gapBound_def verticalDist_spec maxVerticalGap_def js_ge_def js_mul_commute)
    (simp add: boundsOf_def)

lemma eligible_spec: "eligible n s = spec_eligible (boundsOf n) (boundsOf s)"
  using gap_spec [of n s]
  by (simp add: eligible_def spec_eligible_def isBelow_spec isHorizontallyValid_spec)

lemma distance_spec: "distance n s = spec_distance (boundsOf n) (boundsOf s)"
  by (simp add: distance_def spec_distance_def verticalDist_spec horizontalDist_spec
      spec_horizontalDist_def js_mul_commute)

lemma syllable_candidate:
  assumes "k < length events" "ev_type (events ! k) \<noteq> ''neume-type''"
    "spec_boundingBox (events ! k) = Some K"
  shows "\<exists>s\<in>set (syllables events). a_index s = k \<and> boundsOf s = K"
proof -
  obtain x y where xy: "ev_x (events ! k) = JNumber x" "ev_y (events ! k) = JNumber y"
    "K = \<lparr>box_x = x, box_y = y, box_width = ev_width (events ! k),
          box_height = ev_height (events ! k)\<rparr>"
    using assms(3) by (auto simp add: spec_boundingBox_Some)
  let ?s = "withIndex (events ! k) x y k"
  have "syllableAt events k = Some ?s"
    using assms(2) xy(1,2) by (simp add: syllableAt_def entry_Some)
  then have "?s \<in> set (syllables events)"
    using assms(1) syllables_mem by blast
  moreover have "a_index ?s = k" by (simp add: withIndex_def)
  moreover have "boundsOf ?s = K" by (simp add: boundsOf_withIndex xy(3))
  ultimately show ?thesis by blast
qed

lemma neume_candidate:
  assumes "k < length events" "ev_type (events ! k) = ''neume-type''"
    "spec_boundingBox (events ! k) = Some K"
  shows "\<exists>s\<in>set (neumes events). a_index s = k \<and> boundsOf s = K"
proof -
  obtain x y where xy: "ev_x (events ! k) = JNumber x" "ev_y (events ! k) = JNumber y"
    "K = \<lparr>box_x = x, box_y = y, box_width = ev_width (events ! k),
          box_height = ev_height (events ! k)\<rparr>"
    using assms(3) by (auto simp add: spec_boundingBox_Some)
  let ?s = "withIndex (events ! k) x y k"
  have "neumeAt events k = Some ?s"
    using assms(2) xy(1,2) by (simp add: neumeAt_def entry_Some)
  then have "?s \<in> set (neumes events)"
    using assms(1) neumes_mem by blast
  moreover have "a_index ?s = k" by (simp add: withIndex_def)
  moreover have "boundsOf ?s = K" by (simp add: boundsOf_withIndex xy(3))
  ultimately show ?thesis by blast
qed

lemma candidate_boundingBox:
  assumes "a \<in> set (neumes events) \<or> a \<in> set (syllables events)"
  shows "spec_boundingBox (events ! a_index a) = Some (boundsOf a)"
proof -
  obtain x y where "ev_x (events ! a_index a) = JNumber x" "ev_y (events ! a_index a) = JNumber y"
    "a = withIndex (events ! a_index a) x y (a_index a)"
    using assms neumes_source [of a events] syllables_source [of a events] by blast
  then show ?thesis
    by (metis boundsOf_withIndex spec_boundingBox_Some)
qed

lemma earlier_in_prefix:
  assumes "sorted_wrt (<) (map a_index (pre @ b # post))" "s \<in> set (pre @ b # post)"
    "a_index s < a_index b"
  shows "s \<in> set pre"
proof -
  have "\<forall>t\<in>set post. a_index b < a_index t"
    using assms(1) by (simp add: sorted_wrt_append)
  then show ?thesis using assms(2,3) by auto
qed

lemma neumeAt_bbox:
  "neumeAt events m = Some a \<Longrightarrow>
     ev_type (events ! m) = ''neume-type'' \<and> spec_boundingBox (events ! m) = Some (boundsOf a) \<and>
     a_index a = m"
  by (auto simp add: neumeAt_def entry_boundingBox split: if_splits)

lemma syllableAt_bbox:
  "syllableAt events m = Some a \<Longrightarrow>
     ev_type (events ! m) \<noteq> ''neume-type'' \<and> spec_boundingBox (events ! m) = Some (boundsOf a) \<and>
     a_index a = m"
  by (auto simp add: syllableAt_def entry_boundingBox split: if_splits)

lemma only_neume:
  assumes "i < length events"
    and "\<forall>m<length events.
           (ev_type (events ! m) = ''neume-type'' \<and> spec_boundingBox (events ! m) \<noteq> None)
             \<longleftrightarrow> m = i"
  shows "\<exists>n. neumes events = [n] \<and> a_index n = i \<and>
           spec_boundingBox (events ! i) = Some (boundsOf n)"
proof -
  obtain N where N: "ev_type (events ! i) = ''neume-type''" "spec_boundingBox (events ! i) = Some N"
    using assms by auto
  obtain n where n: "n \<in> set (neumes events)" "a_index n = i" "boundsOf n = N"
    using neume_candidate [OF assms(1) N] by blast
  have "set (neumes events) = {n}"
  proof
    show "set (neumes events) \<subseteq> {n}"
    proof
      fix a assume a: "a \<in> set (neumes events)"
      then obtain m where m: "m < length events" "neumeAt events m = Some a"
        using neumes_mem by blast
      then have "m = i" using assms(2) neumeAt_bbox [OF m(2)] by auto
      then have "a_index a = a_index n" using neumeAt_bbox [OF m(2)] n(2) by simp
      then have "a = n" using n(1) a by (rule neumes_index_inj)
      then show "a \<in> {n}" by simp
    qed
  next
    show "{n} \<subseteq> set (neumes events)" using n(1) by simp
  qed
  then have "neumes events = [n]"
    using neumes_sorted [of events] by (rule sorted_single [rotated])
  then show ?thesis using n N(2) by auto
qed

lemma only_two_syllables:
  assumes "j < length events" "k < length events" "j < k"
    and "\<forall>m<length events.
           (ev_type (events ! m) \<noteq> ''neume-type'' \<and> spec_boundingBox (events ! m) \<noteq> None)
             \<longleftrightarrow> (m = j \<or> m = k)"
  shows "\<exists>a b. syllables events = [a, b] \<and> a_index a = j \<and> a_index b = k \<and>
           spec_boundingBox (events ! j) = Some (boundsOf a) \<and>
           spec_boundingBox (events ! k) = Some (boundsOf b)"
proof -
  obtain A where A: "ev_type (events ! j) \<noteq> ''neume-type''" "spec_boundingBox (events ! j) = Some A"
    using assms(1,4) by auto
  obtain B where B: "ev_type (events ! k) \<noteq> ''neume-type''" "spec_boundingBox (events ! k) = Some B"
    using assms(2,4) by auto
  obtain a where a: "a \<in> set (syllables events)" "a_index a = j" "boundsOf a = A"
    using syllable_candidate [OF assms(1) A] by blast
  obtain b where b: "b \<in> set (syllables events)" "a_index b = k" "boundsOf b = B"
    using syllable_candidate [OF assms(2) B] by blast
  have "set (syllables events) = {a, b}"
  proof
    show "set (syllables events) \<subseteq> {a, b}"
    proof
      fix s assume s: "s \<in> set (syllables events)"
      then obtain m where m: "m < length events" "syllableAt events m = Some s"
        using syllables_mem by blast
      then have "m = j \<or> m = k" using assms(4) syllableAt_bbox [OF m(2)] by auto
      then have "a_index s = a_index a \<or> a_index s = a_index b"
        using syllableAt_bbox [OF m(2)] a(2) b(2) by auto
      then have "s = a \<or> s = b"
        using a(1) b(1) s syllables_index_inj by blast
      then show "s \<in> {a, b}" by simp
    qed
  next
    show "{a, b} \<subseteq> set (syllables events)" using a(1) b(1) by simp
  qed
  moreover have "a_index a < a_index b" using a(2) b(2) assms(3) by simp
  ultimately have "syllables events = [a, b]"
    using syllables_sorted [of events] by (intro sorted_pair [where f = a_index]) 
  then show ?thesis using a b A(2) B(2) by auto
qed

section \<open>Behaviour under rounding\<close>

text \<open>
  In \<open>roundedTie\<close> the two scores differ before rounding but are the same double, so
  the first syllable wins.
\<close>

lemma rounded_tie_first_wins:
  "map syllableId (findConnections roundedTie) = [1]"
  by code_simp

lemma rounded_tie_scores:
  "spec_distance (the (spec_boundingBox (roundedTie ! 0))) (the (spec_boundingBox (roundedTie ! 1))) =
     Fin (4813222101752217 / 70368744177664)"
  "spec_distance (the (spec_boundingBox (roundedTie ! 0))) (the (spec_boundingBox (roundedTie ! 2))) =
     Fin (4813222101752217 / 70368744177664)"
  by code_simp+

text \<open>
  The tests are made on the computed values. In \<open>roundedGap\<close> the computed gap is \<open>0\<close>,
  while the exact difference of the same three doubles is negative; in \<open>roundedBand\<close> the
  computed centre of the neume is the computed left end of the band. Both inputs yield a
  connection.
\<close>

lemma rounded_gap_values:
  "literal (7999999999999999 / 10000000000000000) = Fin (7205759403792793 / 9007199254740992)"
  "literal (7 / 10) = Fin (3152519739159347 / 4503599627370496)"
  "js_sub (literal (7999999999999999 / 10000000000000000))
     (js_add (literal (1 / 10)) (literal (7 / 10))) = Fin 0"
  "(7205759403792793 / 9007199254740992 :: rat) -
     (3602879701896397 / 36028797018963968 + 3152519739159347 / 4503599627370496) < 0"
  by code_simp+

lemma rounded_gap_connected:
  "map (\<lambda>c. (neumeId c, syllableId c)) (findConnections roundedGap) = [(0, 1)]"
  by code_simp

lemma rounded_band_connected:
  "map (\<lambda>c. (neumeId c, syllableId c)) (findConnections roundedBand) = [(0, 1)]"
  by code_simp

section \<open>Properties of the connection inference\<close>

text \<open>
  C1. For every neume that receives a connection, the chosen syllable is eligible and its
  score \<open>2 * verticalDist + |Ncx - Scx|\<close>, as computed on JavaScript numbers, is minimal
  among the eligible syllables of the input; every eligible syllable that comes earlier
  in the input has a strictly larger score, so that among equal minimal scores the first
  one encountered wins.
\<close>

theorem chosen_syllable_minimizes_score:
  assumes "c \<in> set (findConnections events)"
  shows "\<exists>N S.
     ev_type (events ! neumeId c) = ''neume-type'' \<and>
     ev_type (events ! syllableId c) \<noteq> ''neume-type'' \<and>
     spec_boundingBox (events ! neumeId c) = Some N \<and>
     spec_boundingBox (events ! syllableId c) = Some S \<and>
     spec_eligible N S \<and>
     (\<forall>k<length events. \<forall>K.
        ev_type (events ! k) \<noteq> ''neume-type'' \<and> spec_boundingBox (events ! k) = Some K \<and>
        spec_eligible N K \<longrightarrow>
          js_le (spec_distance N S) (spec_distance N K) \<and>
          (k < syllableId c \<longrightarrow> js_lt (spec_distance N S) (spec_distance N K)))"
proof -
  obtain n b where nb: "n \<in> set (neumes events)" "b \<in> set (syllables events)"
      "fst (bestMatch n (syllables events)) = Some b" "eligible n b" "c = connection n b"
      "ev_type (events ! neumeId c) = ''neume-type''"
      "ev_type (events ! syllableId c) \<noteq> ''neume-type''"
    using connection_sound [OF assms] by blast
  have ids: "neumeId c = a_index n" "syllableId c = a_index b"
    using nb(5) by (simp_all add: connection_ids)
  have N: "spec_boundingBox (events ! neumeId c) = Some (boundsOf n)"
    unfolding ids using nb(1) by (simp add: candidate_boundingBox)
  have S: "spec_boundingBox (events ! syllableId c) = Some (boundsOf b)"
    unfolding ids using nb(2) by (simp add: candidate_boundingBox)
  obtain pre post where pre: "syllables events = pre @ b # post"
      "\<forall>s\<in>set pre. eligible n s \<longrightarrow> distance n s \<noteq> distance n b"
    using bestMatch_first [OF nb(3)] by blast
  have rest: "js_le (spec_distance (boundsOf n) (boundsOf b)) (spec_distance (boundsOf n) K) \<and>
      (k < syllableId c \<longrightarrow>
        js_lt (spec_distance (boundsOf n) (boundsOf b)) (spec_distance (boundsOf n) K))"
    if k: "k < length events" "ev_type (events ! k) \<noteq> ''neume-type''"
      "spec_boundingBox (events ! k) = Some K" "spec_eligible (boundsOf n) K" for k K
  proof -
    obtain s where s: "s \<in> set (syllables events)" "a_index s = k" "boundsOf s = K"
      using syllable_candidate [OF k(1,2,3)] by blast
    have el: "eligible n s" using k(4) s(3) by (simp add: eligible_spec)
    have le: "js_le (distance n b) (distance n s)"
      using nb(3) s(1) el by (rule bestMatch_le)
    have "js_lt (distance n b) (distance n s)" if "k < syllableId c"
    proof -
      have "sorted_wrt (<) (map a_index (pre @ b # post))"
        using syllables_sorted [of events] pre(1) by simp
      moreover have "s \<in> set (pre @ b # post)" using s(1) pre(1) by simp
      moreover have "a_index s < a_index b" using that s(2) ids(2) by simp
      ultimately have "s \<in> set pre" by (rule earlier_in_prefix)
      then have "distance n b \<noteq> distance n s" using pre(2) el by metis
      then show ?thesis using le js_le_neq_lt by blast
    qed
    then show ?thesis using le s(3) by (simp add: distance_spec)
  qed
  have "spec_eligible (boundsOf n) (boundsOf b)"
    using nb(4) by (simp add: eligible_spec)
  then show ?thesis
    using nb(6,7) N S rest by blast
qed

theorem chosen_syllable_minimizes_score_witness:
  "\<lparr>neumeId = 0, syllableId = 2, neumeX = Fin 5, neumeY = Fin 10,
     syllableX = Fin 5, syllableY = Fin 12\<rparr> \<in> set (findConnections tieExample) \<and>
   (\<exists>N S.
     ev_type (tieExample ! 0) = ''neume-type'' \<and>
     ev_type (tieExample ! 2) \<noteq> ''neume-type'' \<and>
     spec_boundingBox (tieExample ! 0) = Some N \<and>
     spec_boundingBox (tieExample ! 2) = Some S \<and>
     spec_eligible N S \<and>
     (\<forall>k<length tieExample. \<forall>K.
        ev_type (tieExample ! k) \<noteq> ''neume-type'' \<and> spec_boundingBox (tieExample ! k) = Some K \<and>
        spec_eligible N K \<longrightarrow>
          js_le (spec_distance N S) (spec_distance N K) \<and>
          (k < 2 \<longrightarrow> js_lt (spec_distance N S) (spec_distance N K)))) \<and>
   spec_distance \<lparr>box_x = Fin 0, box_y = Fin 0, box_width = Fin 10, box_height = Fin 10\<rparr>
       \<lparr>box_x = Fin 10, box_y = Fin 10, box_width = Fin 10, box_height = Fin 5\<rparr> = Fin 10 \<and>
   spec_distance \<lparr>box_x = Fin 0, box_y = Fin 0, box_width = Fin 10, box_height = Fin 10\<rparr>
       \<lparr>box_x = Fin 0, box_y = Fin 12, box_width = Fin 10, box_height = Fin 5\<rparr> = Fin 4 \<and>
   spec_distance \<lparr>box_x = Fin 0, box_y = Fin 0, box_width = Fin 10, box_height = Fin 10\<rparr>
       \<lparr>box_x = Fin 4, box_y = Fin 10, box_width = Fin 10, box_height = Fin 5\<rparr> = Fin 4"
proof -
  have h: "\<lparr>neumeId = 0, syllableId = 2, neumeX = Fin 5, neumeY = Fin 10,
     syllableX = Fin 5, syllableY = Fin 12\<rparr> \<in> set (findConnections tieExample)"
    by code_simp
  have d1: "spec_distance \<lparr>box_x = Fin 0, box_y = Fin 0, box_width = Fin 10, box_height = Fin 10\<rparr>
       \<lparr>box_x = Fin 10, box_y = Fin 10, box_width = Fin 10, box_height = Fin 5\<rparr> = Fin 10"
    by code_simp
  have d2: "spec_distance \<lparr>box_x = Fin 0, box_y = Fin 0, box_width = Fin 10, box_height = Fin 10\<rparr>
       \<lparr>box_x = Fin 0, box_y = Fin 12, box_width = Fin 10, box_height = Fin 5\<rparr> = Fin 4"
    by code_simp
  have d3: "spec_distance \<lparr>box_x = Fin 0, box_y = Fin 0, box_width = Fin 10, box_height = Fin 10\<rparr>
       \<lparr>box_x = Fin 4, box_y = Fin 10, box_width = Fin 10, box_height = Fin 5\<rparr> = Fin 4"
    by code_simp
  show ?thesis
    using h d1 d2 d3 chosen_syllable_minimizes_score [OF h] by simp
qed

text \<open>
  C2. The neume references of the emitted connections are indices of neume records of the
  input and are strictly increasing along the output: no two connections share a neume,
  and the connections come in the order of their neumes in the input.
\<close>

theorem one_connection_per_neume_in_order:
  "distinct (map neumeId (findConnections events)) \<and>
   sorted_wrt (<) (map neumeId (findConnections events)) \<and>
   set (map neumeId (findConnections events))
     \<subseteq> {i. i < length events \<and> ev_type (events ! i) = ''neume-type''}"
proof -
  have s: "sorted_wrt (<) (map neumeId (findConnections events))"
    by (rule findConnections_sorted)
  then have "distinct (map neumeId (findConnections events))"
    using strict_sorted_iff by blast
  moreover have "set (map neumeId (findConnections events))
     \<subseteq> {i. i < length events \<and> ev_type (events ! i) = ''neume-type''}"
  proof
    fix i assume "i \<in> set (map neumeId (findConnections events))"
    then obtain c where "c \<in> set (findConnections events)" "i = neumeId c" by auto
    then show "i \<in> {i. i < length events \<and> ev_type (events ! i) = ''neume-type''}"
      using connection_sound [of c events] by blast
  qed
  ultimately show ?thesis using s by simp
qed

text \<open>
  C3. For every connection emitted, the vertical gap between the top edge of the syllable
  and the bottom edge of the neume, as the program computes it, is at least 0 and less
  than five times the height of the neume.
\<close>

theorem emitted_gap_bound:
  assumes "c \<in> set (findConnections events)"
  shows "\<exists>ny sy h. ev_y (events ! neumeId c) = JNumber ny \<and>
           ev_y (events ! syllableId c) = JNumber sy \<and> ev_height (events ! neumeId c) = h \<and>
           js_le (Fin 0) (js_sub sy (js_add ny h)) \<and>
           js_lt (js_sub sy (js_add ny h)) (js_mul (Fin 5) h)"
proof -
  obtain n b nx ny sx sy where h: "eligible n b"
    "ev_y (events ! neumeId c) = JNumber ny" "ev_y (events ! syllableId c) = JNumber sy"
    "n = withIndex (events ! neumeId c) nx ny (neumeId c)"
    "b = withIndex (events ! syllableId c) sx sy (syllableId c)"
    using connection_sound [OF assms] by blast
  have "js_le (Fin 0) (js_sub sy (js_add ny (ev_height (events ! neumeId c)))) \<and>
        js_lt (js_sub sy (js_add ny (ev_height (events ! neumeId c))))
          (js_mul (Fin 5) (ev_height (events ! neumeId c)))"
    using h(1) unfolding h(4,5)
    by (simp add: eligible_def verticalDist_def maxVerticalGap_def neumeBottomY_def
        syllableTop_def withIndex_def js_ge_def js_mul_commute)
  then show ?thesis using h(2,3) by simp
qed

theorem emitted_gap_bound_witness:
  "\<lparr>neumeId = 0, syllableId = 1, neumeX = Fin 5,
     neumeY = Fin (7205759403792793 / 9007199254740992), syllableX = Fin 5,
     syllableY = Fin (7205759403792793 / 9007199254740992)\<rparr> \<in> set (findConnections roundedGap) \<and>
   (\<exists>ny sy h. ev_y (roundedGap ! 0) = JNumber ny \<and> ev_y (roundedGap ! 1) = JNumber sy \<and>
      ev_height (roundedGap ! 0) = h \<and>
      js_le (Fin 0) (js_sub sy (js_add ny h)) \<and>
      js_lt (js_sub sy (js_add ny h)) (js_mul (Fin 5) h))"
proof -
  have h: "\<lparr>neumeId = 0, syllableId = 1, neumeX = Fin 5,
     neumeY = Fin (7205759403792793 / 9007199254740992), syllableX = Fin 5,
     syllableY = Fin (7205759403792793 / 9007199254740992)\<rparr> \<in> set (findConnections roundedGap)"
    by code_simp
  show ?thesis using h emitted_gap_bound [OF h] by simp
qed

text \<open>
  C4. For every connection emitted, the top edge of the chosen syllable is at or below the
  top edge of the neume: a syllable whose top lies strictly above the neume's top is never
  selected for it.
\<close>

theorem chosen_syllable_not_above:
  assumes "c \<in> set (findConnections events)"
  shows "\<exists>ny sy. ev_y (events ! neumeId c) = JNumber ny \<and>
           ev_y (events ! syllableId c) = JNumber sy \<and> js_ge sy ny \<and> \<not> js_lt sy ny"
proof -
  obtain n b nx ny sx sy where h: "eligible n b"
    "ev_y (events ! neumeId c) = JNumber ny" "ev_y (events ! syllableId c) = JNumber sy"
    "n = withIndex (events ! neumeId c) nx ny (neumeId c)"
    "b = withIndex (events ! syllableId c) sx sy (syllableId c)"
    using connection_sound [OF assms] by blast
  have "js_ge sy ny"
    using h(1) unfolding h(4,5)
    by (simp add: eligible_def isBelow_def syllableTop_def withIndex_def)
  then show ?thesis
    using h(2,3) js_le_not_lt by (auto simp add: js_ge_def)
qed

theorem chosen_syllable_not_above_witness:
  "\<lparr>neumeId = 0, syllableId = 1, neumeX = Fin 5, neumeY = Fin 10,
     syllableX = Fin 5, syllableY = Fin 15\<rparr> \<in> set (findConnections scenarioA) \<and>
   (\<exists>ny sy. ev_y (scenarioA ! 0) = JNumber ny \<and> ev_y (scenarioA ! 1) = JNumber sy \<and>
      js_ge sy ny \<and> \<not> js_lt sy ny)"
proof -
  have h: "\<lparr>neumeId = 0, syllableId = 1, neumeX = Fin 5, neumeY = Fin 10,
     syllableX = Fin 5, syllableY = Fin 15\<rparr> \<in> set (findConnections scenarioA)"
    by code_simp
  show ?thesis using h chosen_syllable_not_above [OF h] by simp
qed

text \<open>
  C5. For every connection emitted, the horizontal centre of the neume lies in the band
  from the syllable's left edge minus its width to its right edge plus its width; and a
  neume for which no syllable record of the input passes this band test gets no
  connection.
\<close>

theorem chosen_syllable_in_band:
  "(\<forall>c\<in>set (findConnections events).
      \<exists>nx sx. ev_x (events ! neumeId c) = JNumber nx \<and>
        ev_x (events ! syllableId c) = JNumber sx \<and>
        js_le (js_sub sx (ev_width (events ! syllableId c)))
          (js_add nx (js_div (ev_width (events ! neumeId c)) (Fin 2))) \<and>
        js_le (js_add nx (js_div (ev_width (events ! neumeId c)) (Fin 2)))
          (js_add (js_add sx (ev_width (events ! syllableId c)))
             (ev_width (events ! syllableId c)))) \<and>
   (\<forall>i<length events. \<forall>N.
      spec_boundingBox (events ! i) = Some N \<and>
      (\<forall>k<length events. \<forall>S.
         ev_type (events ! k) \<noteq> ''neume-type'' \<and> spec_boundingBox (events ! k) = Some S
           \<longrightarrow> \<not> spec_inBand N S)
      \<longrightarrow> (\<forall>c\<in>set (findConnections events). neumeId c \<noteq> i))"
proof (intro conjI ballI allI impI)
  fix c assume c: "c \<in> set (findConnections events)"
  obtain n b nx ny sx sy where h: "eligible n b"
    "ev_x (events ! neumeId c) = JNumber nx" "ev_x (events ! syllableId c) = JNumber sx"
    "n = withIndex (events ! neumeId c) nx ny (neumeId c)"
    "b = withIndex (events ! syllableId c) sx sy (syllableId c)"
    using connection_sound [OF c] by blast
  have "js_le (js_sub sx (ev_width (events ! syllableId c)))
          (js_add nx (js_div (ev_width (events ! neumeId c)) (Fin 2))) \<and>
        js_le (js_add nx (js_div (ev_width (events ! neumeId c)) (Fin 2)))
          (js_add (js_add sx (ev_width (events ! syllableId c)))
             (ev_width (events ! syllableId c)))"
    using h(1) unfolding h(4,5)
    by (simp add: eligible_def isHorizontallyValid_def neumeCenterX_def syllableLeft_def
        syllableRight_def withIndex_def js_ge_def)
  then show "\<exists>nx sx. ev_x (events ! neumeId c) = JNumber nx \<and>
        ev_x (events ! syllableId c) = JNumber sx \<and>
        js_le (js_sub sx (ev_width (events ! syllableId c)))
          (js_add nx (js_div (ev_width (events ! neumeId c)) (Fin 2))) \<and>
        js_le (js_add nx (js_div (ev_width (events ! neumeId c)) (Fin 2)))
          (js_add (js_add sx (ev_width (events ! syllableId c)))
             (ev_width (events ! syllableId c)))"
    using h(2,3) by simp
next
  fix i N c
  assume i: "i < length events"
    and hyp: "spec_boundingBox (events ! i) = Some N \<and>
      (\<forall>k<length events. \<forall>S.
         ev_type (events ! k) \<noteq> ''neume-type'' \<and> spec_boundingBox (events ! k) = Some S
           \<longrightarrow> \<not> spec_inBand N S)"
    and c: "c \<in> set (findConnections events)"
  show "neumeId c \<noteq> i"
  proof
    assume eq: "neumeId c = i"
    obtain n b where nb: "n \<in> set (neumes events)" "b \<in> set (syllables events)"
      "eligible n b" "c = connection n b" "syllableId c < length events"
      "ev_type (events ! syllableId c) \<noteq> ''neume-type''"
      using connection_sound [OF c] by blast
    have ids: "neumeId c = a_index n" "syllableId c = a_index b"
      using nb(4) by (simp_all add: connection_ids)
    have "spec_boundingBox (events ! i) = Some (boundsOf n)"
      using nb(1) eq ids(1) candidate_boundingBox [of n events] by simp
    then have N: "boundsOf n = N" using hyp by simp
    have "spec_boundingBox (events ! syllableId c) = Some (boundsOf b)"
      using nb(2) ids(2) candidate_boundingBox [of b events] by simp
    then have "\<not> spec_inBand N (boundsOf b)"
      using hyp nb(5,6) by blast
    then show False
      using nb(3) N by (simp add: eligible_def isHorizontallyValid_spec)
  qed
qed

theorem chosen_syllable_in_band_witness:
  "\<lparr>neumeId = 0, syllableId = 1, neumeX = Fin 5, neumeY = Fin 10,
     syllableX = Fin 5, syllableY = Fin 15\<rparr> \<in> set (findConnections scenarioA) \<and>
   (\<exists>nx sx. ev_x (scenarioA ! 0) = JNumber nx \<and> ev_x (scenarioA ! 1) = JNumber sx \<and>
      js_le (js_sub sx (ev_width (scenarioA ! 1)))
        (js_add nx (js_div (ev_width (scenarioA ! 0)) (Fin 2))) \<and>
      js_le (js_add nx (js_div (ev_width (scenarioA ! 0)) (Fin 2)))
        (js_add (js_add sx (ev_width (scenarioA ! 1))) (ev_width (scenarioA ! 1)))) \<and>
   spec_boundingBox (outOfBand ! 0) =
     Some \<lparr>box_x = Fin 0, box_y = Fin 0, box_width = Fin 10, box_height = Fin 10\<rparr> \<and>
   spec_boundingBox (outOfBand ! 1) =
     Some \<lparr>box_x = Fin 100, box_y = Fin 15, box_width = Fin 10, box_height = Fin 5\<rparr> \<and>
   \<not> spec_inBand \<lparr>box_x = Fin 0, box_y = Fin 0, box_width = Fin 10, box_height = Fin 10\<rparr>
       \<lparr>box_x = Fin 100, box_y = Fin 15, box_width = Fin 10, box_height = Fin 5\<rparr> \<and>
   spec_below \<lparr>box_x = Fin 0, box_y = Fin 0, box_width = Fin 10, box_height = Fin 10\<rparr>
       \<lparr>box_x = Fin 100, box_y = Fin 15, box_width = Fin 10, box_height = Fin 5\<rparr> \<and>
   spec_gapBound \<lparr>box_x = Fin 0, box_y = Fin 0, box_width = Fin 10, box_height = Fin 10\<rparr>
       \<lparr>box_x = Fin 100, box_y = Fin 15, box_width = Fin 10, box_height = Fin 5\<rparr> \<and>
   0 \<notin> neumeId ` set (findConnections outOfBand)"
proof -
  let ?N = "\<lparr>box_x = Fin 0, box_y = Fin 0, box_width = Fin 10, box_height = Fin 10\<rparr>"
  let ?S = "\<lparr>box_x = Fin 100, box_y = Fin 15, box_width = Fin 10, box_height = Fin 5\<rparr>"
  have h: "\<lparr>neumeId = 0, syllableId = 1, neumeX = Fin 5, neumeY = Fin 10,
     syllableX = Fin 5, syllableY = Fin 15\<rparr> \<in> set (findConnections scenarioA)"
    by code_simp
  have len: "0 < length outOfBand" "length outOfBand = 2"
    by (simp_all add: outOfBand_def)
  have n: "spec_boundingBox (outOfBand ! 0) = Some ?N"
    by (simp add: outOfBand_def box_def spec_boundingBox_def)
  have s: "spec_boundingBox (outOfBand ! 1) = Some ?S"
    by (simp add: outOfBand_def box_def spec_boundingBox_def)
  have out: "\<not> spec_inBand ?N ?S" by code_simp
  have below: "spec_below ?N ?S" by code_simp
  have gap: "spec_gapBound ?N ?S" by code_simp
  have none: "\<forall>k<length outOfBand. \<forall>S.
         ev_type (outOfBand ! k) \<noteq> ''neume-type'' \<and> spec_boundingBox (outOfBand ! k) = Some S
           \<longrightarrow> \<not> spec_inBand ?N S"
  proof (intro allI impI)
    fix k S
    assume k: "k < length outOfBand"
      and kS: "ev_type (outOfBand ! k) \<noteq> ''neume-type'' \<and>
        spec_boundingBox (outOfBand ! k) = Some S"
    have "k = 0 \<or> k = 1" using k len(2) by auto
    then show "\<not> spec_inBand ?N S"
    proof
      assume "k = 0"
      then show ?thesis using kS by (simp add: outOfBand_def box_def)
    next
      assume "k = 1"
      then have "S = ?S" using kS s by simp
      then show ?thesis using out by simp
    qed
  qed
  note first = chosen_syllable_in_band [of scenarioA, THEN conjunct1, THEN bspec, OF h]
  note second = chosen_syllable_in_band [of outOfBand, THEN conjunct2, THEN spec, THEN mp,
      OF len(1), THEN spec, THEN mp, OF conjI, OF n none]
  have "0 \<notin> neumeId ` set (findConnections outOfBand)"
    using second by auto
  then show ?thesis using h n s out below gap first by simp
qed

text \<open>
  C6. A record of the input whose \<open>x\<close> or \<open>y\<close> is not a number is neither the neume nor
  the syllable of any emitted connection. The function has no failing path: it returns a
  list of connections for every input.
\<close>

theorem non_numeric_position_excluded:
  assumes "i < length events"
    and "numberOf (ev_x (events ! i)) = None \<or> numberOf (ev_y (events ! i)) = None"
  shows "\<forall>c\<in>set (findConnections events). neumeId c \<noteq> i \<and> syllableId c \<noteq> i"
proof
  fix c assume c: "c \<in> set (findConnections events)"
  obtain nx ny sx sy where
    "ev_x (events ! neumeId c) = JNumber nx" "ev_y (events ! neumeId c) = JNumber ny"
    "ev_x (events ! syllableId c) = JNumber sx" "ev_y (events ! syllableId c) = JNumber sy"
    using connection_sound [OF c] by blast
  then show "neumeId c \<noteq> i \<and> syllableId c \<noteq> i"
    using assms(2) by auto
qed

theorem non_numeric_position_excluded_witness:
  "1 < length malformed \<and> numberOf (ev_x (malformed ! 1)) = None \<and>
   1 \<notin> neumeId ` set (findConnections malformed) \<and>
   1 \<notin> syllableId ` set (findConnections malformed)"
proof -
  have h1: "1 < length malformed" by code_simp
  have h2: "numberOf (ev_x (malformed ! 1)) = None" by code_simp
  then have "numberOf (ev_x (malformed ! 1)) = None \<or> numberOf (ev_y (malformed ! 1)) = None"
    by simp
  then have "\<forall>c\<in>set (findConnections malformed). neumeId c \<noteq> 1 \<and> syllableId c \<noteq> 1"
    using h1 by (rule non_numeric_position_excluded [rotated])
  then show ?thesis using h1 h2 by auto
qed

text \<open>
  C8, in the form that holds. Let the input hold one neume and two syllables with numeric
  positions, both syllables eligible, one of them vertically closer to the neume. The
  neume is connected to the vertically closer syllable exactly when that syllable's score
  \<open>2 * verticalDist + |Ncx - Scx|\<close> is strictly smaller than the other's, or the two scores
  are equal, below \<open>Infinity\<close>, and it comes first in the input. This can hold although the
  other syllable is better centred.
\<close>

theorem vertically_closer_chosen_iff_score_better:
  assumes "i < length events" "j < length events" "k < length events"
    and "\<forall>m<length events.
           (ev_type (events ! m) = ''neume-type'' \<and> spec_boundingBox (events ! m) \<noteq> None)
             \<longleftrightarrow> m = i"
    and "\<forall>m<length events.
           (ev_type (events ! m) \<noteq> ''neume-type'' \<and> spec_boundingBox (events ! m) \<noteq> None)
             \<longleftrightarrow> (m = j \<or> m = k)"
    and "spec_boundingBox (events ! i) = Some N"
    and "spec_boundingBox (events ! j) = Some A"
    and "spec_boundingBox (events ! k) = Some B"
    and "spec_eligible N A" and "spec_eligible N B"
    and "js_lt (spec_verticalDist N A) (spec_verticalDist N B)"
  shows "map (\<lambda>c. (neumeId c, syllableId c)) (findConnections events) = [(i, j)] \<longleftrightarrow>
           js_lt (spec_distance N A) (spec_distance N B) \<or>
           (spec_distance N A = spec_distance N B \<and> js_lt (spec_distance N A) PosInf \<and> j < k)"
proof -
  have "A \<noteq> B" using assms(11) js_lt_irrefl by auto
  then have jk: "j \<noteq> k" using assms(7,8) by auto
  obtain n where n: "neumes events = [n]" "a_index n = i" "boundsOf n = N"
    using only_neume [OF assms(1,4)] assms(6) by auto
  have "\<exists>a b. set (syllables events) = {a, b} \<and> a \<noteq> b \<and> 
          (syllables events = [a, b] \<longleftrightarrow> j < k) \<and>
          (syllables events = [a, b] \<or> syllables events = [b, a]) \<and>
          a_index a = j \<and> a_index b = k \<and> boundsOf a = A \<and> boundsOf b = B"
  proof (cases "j < k")
    case True
    obtain a b where "syllables events = [a, b]" "a_index a = j" "a_index b = k"
      "spec_boundingBox (events ! j) = Some (boundsOf a)"
      "spec_boundingBox (events ! k) = Some (boundsOf b)"
      using only_two_syllables [OF assms(2,3) True assms(5)] by blast
    then show ?thesis using True jk assms(7,8) by (intro exI [of _ a] exI [of _ b]) auto
  next
    case False
    then have kj: "k < j" using jk by simp
    have sym: "\<forall>m<length events.
           (ev_type (events ! m) \<noteq> ''neume-type'' \<and> spec_boundingBox (events ! m) \<noteq> None)
             \<longleftrightarrow> (m = k \<or> m = j)"
      using assms(5) by auto
    obtain b a where "syllables events = [b, a]" "a_index b = k" "a_index a = j"
      "spec_boundingBox (events ! k) = Some (boundsOf b)"
      "spec_boundingBox (events ! j) = Some (boundsOf a)"
      using only_two_syllables [OF assms(3,2) kj sym] by blast
    then show ?thesis using False jk assms(7,8) by (intro exI [of _ a] exI [of _ b]) auto
  qed
  then obtain a b where ab: "a \<noteq> b" "syllables events = [a, b] \<longleftrightarrow> j < k"
      "syllables events = [a, b] \<or> syllables events = [b, a]"
      "a_index a = j" "a_index b = k" "boundsOf a = A" "boundsOf b = B"
    by blast
  have el: "eligible n a" "eligible n b"
    using assms(9,10) n(3) ab(6,7) by (simp_all add: eligible_spec)
  have best: "fst (bestMatch n (syllables events)) = Some a \<longleftrightarrow>
     js_lt (distance n a) (distance n b) \<or>
     (distance n a = distance n b \<and> js_lt (distance n a) PosInf \<and> syllables events = [a, b])"
    using el ab(1,3) by (rule bestMatch_pair_iff)
  have out: "map (\<lambda>c. (neumeId c, syllableId c)) (findConnections events) = [(i, j)] \<longleftrightarrow>
     fst (bestMatch n (syllables events)) = Some a"
  proof (cases "fst (bestMatch n (syllables events))")
    case None
    then show ?thesis by (simp add: findConnections_eq n(1) choice_def)
  next
    case (Some x)
    then have "x \<in> set (syllables events)" using bestMatch_Some by blast
    then have "x = a \<or> x = b" using ab(3) by auto
    then show ?thesis
      using Some jk ab(4,5) n(2)
      by (auto simp add: findConnections_eq n(1) choice_def connection_ids)
  qed
  show ?thesis
    unfolding out best using ab(2) n(3) ab(6,7) by (simp add: distance_spec)
qed

theorem vertically_closer_chosen_iff_score_better_witness:
  "map (\<lambda>c. (neumeId c, syllableId c)) (findConnections nearAndOffCentre) = [(0, 2)] \<and>
   js_lt
     (spec_verticalDist \<lparr>box_x = Fin 0, box_y = Fin 0, box_width = Fin 10, box_height = Fin 10\<rparr>
        \<lparr>box_x = Fin 1, box_y = Fin 10, box_width = Fin 10, box_height = Fin 5\<rparr>)
     (spec_verticalDist \<lparr>box_x = Fin 0, box_y = Fin 0, box_width = Fin 10, box_height = Fin 10\<rparr>
        \<lparr>box_x = Fin 0, box_y = Fin 15, box_width = Fin 10, box_height = Fin 5\<rparr>) \<and>
   js_lt
     (spec_horizontalDist \<lparr>box_x = Fin 0, box_y = Fin 0, box_width = Fin 10, box_height = Fin 10\<rparr>
        \<lparr>box_x = Fin 0, box_y = Fin 15, box_width = Fin 10, box_height = Fin 5\<rparr>)
     (spec_horizontalDist \<lparr>box_x = Fin 0, box_y = Fin 0, box_width = Fin 10, box_height = Fin 10\<rparr>
        \<lparr>box_x = Fin 1, box_y = Fin 10, box_width = Fin 10, box_height = Fin 5\<rparr>) \<and>
   spec_distance \<lparr>box_x = Fin 0, box_y = Fin 0, box_width = Fin 10, box_height = Fin 10\<rparr>
        \<lparr>box_x = Fin 1, box_y = Fin 10, box_width = Fin 10, box_height = Fin 5\<rparr> = Fin 1 \<and>
   spec_distance \<lparr>box_x = Fin 0, box_y = Fin 0, box_width = Fin 10, box_height = Fin 10\<rparr>
        \<lparr>box_x = Fin 0, box_y = Fin 15, box_width = Fin 10, box_height = Fin 5\<rparr> = Fin 10"
proof -
  let ?N = "\<lparr>box_x = Fin 0, box_y = Fin 0, box_width = Fin 10, box_height = Fin 10\<rparr>"
  let ?A = "\<lparr>box_x = Fin 1, box_y = Fin 10, box_width = Fin 10, box_height = Fin 5\<rparr>"
  let ?B = "\<lparr>box_x = Fin 0, box_y = Fin 15, box_width = Fin 10, box_height = Fin 5\<rparr>"
  have len: "length nearAndOffCentre = 3"
    by (simp add: nearAndOffCentre_def)
  have i: "0 < length nearAndOffCentre" and j: "2 < length nearAndOffCentre"
    and k: "1 < length nearAndOffCentre"
    by (simp_all add: len)
  have bN: "spec_boundingBox (nearAndOffCentre ! 0) = Some ?N"
    by (simp add: nearAndOffCentre_def box_def spec_boundingBox_def)
  have bA: "spec_boundingBox (nearAndOffCentre ! 2) = Some ?A"
    by (simp add: nearAndOffCentre_def box_def spec_boundingBox_def)
  have bB: "spec_boundingBox (nearAndOffCentre ! 1) = Some ?B"
    by (simp add: nearAndOffCentre_def box_def spec_boundingBox_def)
  have cases3: "m = 0 \<or> m = 1 \<or> m = 2" if "m < length nearAndOffCentre" for m
    using that len by auto
  have neume: "\<forall>m<length nearAndOffCentre.
      (ev_type (nearAndOffCentre ! m) = ''neume-type'' \<and>
       spec_boundingBox (nearAndOffCentre ! m) \<noteq> None) \<longleftrightarrow> m = 0"
  proof (intro allI impI)
    fix m assume "m < length nearAndOffCentre"
    then have "m = 0 \<or> m = 1 \<or> m = 2" by (rule cases3)
    then show "(ev_type (nearAndOffCentre ! m) = ''neume-type'' \<and>
       spec_boundingBox (nearAndOffCentre ! m) \<noteq> None) \<longleftrightarrow> m = 0"
      by (elim disjE) (simp_all add: nearAndOffCentre_def box_def spec_boundingBox_def)
  qed
  have syls: "\<forall>m<length nearAndOffCentre.
      (ev_type (nearAndOffCentre ! m) \<noteq> ''neume-type'' \<and>
       spec_boundingBox (nearAndOffCentre ! m) \<noteq> None) \<longleftrightarrow> (m = 2 \<or> m = 1)"
  proof (intro allI impI)
    fix m assume "m < length nearAndOffCentre"
    then have "m = 0 \<or> m = 1 \<or> m = 2" by (rule cases3)
    then show "(ev_type (nearAndOffCentre ! m) \<noteq> ''neume-type'' \<and>
       spec_boundingBox (nearAndOffCentre ! m) \<noteq> None) \<longleftrightarrow> (m = 2 \<or> m = 1)"
      by (elim disjE) (simp_all add: nearAndOffCentre_def box_def spec_boundingBox_def)
  qed
  have eA: "spec_eligible ?N ?A" by code_simp
  have eB: "spec_eligible ?N ?B" by code_simp
  have vd: "js_lt (spec_verticalDist ?N ?A) (spec_verticalDist ?N ?B)" by code_simp
  have hd: "js_lt (spec_horizontalDist ?N ?B) (spec_horizontalDist ?N ?A)" by code_simp
  have dA: "spec_distance ?N ?A = Fin 1" by code_simp
  have dB: "spec_distance ?N ?B = Fin 10" by code_simp
  have better: "js_lt (spec_distance ?N ?A) (spec_distance ?N ?B) \<or>
      (spec_distance ?N ?A = spec_distance ?N ?B \<and> js_lt (spec_distance ?N ?A) PosInf \<and>
       (2::nat) < 1)"
    by (simp add: dA dB)
  have "map (\<lambda>c. (neumeId c, syllableId c)) (findConnections nearAndOffCentre) = [(0, 2)]"
    using vertically_closer_chosen_iff_score_better
      [OF i j k neume syls bN bA bB eA eB vd, THEN iffD2, OF better] .
  then show ?thesis using vd hd dA dB by simp
qed

text \<open>
  C8 without that condition fails: in \<open>wideAndNear\<close> both syllables are eligible and the
  first is vertically closer to the neume, yet the second, better centred one is chosen
  (score 2 against 95).
\<close>

theorem vertically_closer_not_chosen_counterexample:
  "length (neumes wideAndNear) = 1 \<and> length (syllables wideAndNear) = 2 \<and>
   eligible (neumes wideAndNear ! 0) (syllables wideAndNear ! 0) \<and>
   eligible (neumes wideAndNear ! 0) (syllables wideAndNear ! 1) \<and>
   js_lt (verticalDist (neumes wideAndNear ! 0) (syllables wideAndNear ! 0))
     (verticalDist (neumes wideAndNear ! 0) (syllables wideAndNear ! 1)) \<and>
   a_index (syllables wideAndNear ! 0) = 1 \<and>
   map neumeId (findConnections wideAndNear) = [0] \<and>
   map syllableId (findConnections wideAndNear) = [2]"
  by code_simp

text \<open>
  C9. A record whose height is 0 never receives a connection: the gap would have to be at
  least 0 and less than 0.
\<close>

theorem zero_height_neume_unconnected:
  assumes "i < length events" and "ev_height (events ! i) = Fin 0"
  shows "\<forall>c\<in>set (findConnections events). neumeId c \<noteq> i"
proof
  fix c assume c: "c \<in> set (findConnections events)"
  obtain n b nx ny where h: "eligible n b"
    "n = withIndex (events ! neumeId c) nx ny (neumeId c)"
    using connection_sound [OF c] by blast
  show "neumeId c \<noteq> i"
  proof
    assume "neumeId c = i"
    then have "maxVerticalGap n = Fin 0"
      using assms(2) h(2) by (simp add: maxVerticalGap_def withIndex_def round64_zero)
    then have "js_le (Fin 0) (verticalDist n b) \<and> js_lt (verticalDist n b) (Fin 0)"
      using h(1) by (simp add: eligible_def js_ge_def)
    then show False using js_le_not_lt by blast
  qed
qed

theorem zero_height_neume_unconnected_witness:
  "0 < length flatNeume \<and> ev_height (flatNeume ! 0) = Fin 0 \<and>
   ev_y (flatNeume ! 0) = ev_y (flatNeume ! 1) \<and>
   0 \<notin> neumeId ` set (findConnections flatNeume)"
proof -
  have h1: "0 < length flatNeume" by code_simp
  have h2: "ev_height (flatNeume ! 0) = Fin 0" by code_simp
  have h3: "ev_y (flatNeume ! 0) = ev_y (flatNeume ! 1)" by code_simp
  have "\<forall>c\<in>set (findConnections flatNeume). neumeId c \<noteq> 0"
    using h1 h2 by (rule zero_height_neume_unconnected)
  then show ?thesis using h1 h2 h3 by auto
qed

text \<open>
  C10. Two inputs of the same length whose records agree on type, \<open>x\<close>, \<open>y\<close>, width and
  height, and so differ at most in their labels, yield the same connections.
\<close>

theorem labels_do_not_matter:
  assumes "length evs = length evs'"
    and "\<forall>i<length evs. ev_type (evs ! i) = ev_type (evs' ! i) \<and>
           ev_x (evs ! i) = ev_x (evs' ! i) \<and> ev_y (evs ! i) = ev_y (evs' ! i) \<and>
           ev_width (evs ! i) = ev_width (evs' ! i) \<and>
           ev_height (evs ! i) = ev_height (evs' ! i)"
  shows "findConnections evs = findConnections evs'"
proof -
  have "findConnections evs = findConnections (map strip evs)"
    by (simp add: findConnections_strip)
  also have "\<dots> = findConnections (map strip evs')"
    using strip_agree [OF assms] by simp
  also have "\<dots> = findConnections evs'"
    by (simp add: findConnections_strip)
  finally show ?thesis .
qed

theorem labels_do_not_matter_witness:
  "length scenarioA = length scenarioA_relabelled \<and>
   map ev_value scenarioA \<noteq> map ev_value scenarioA_relabelled \<and>
   findConnections scenarioA = findConnections scenarioA_relabelled"
proof -
  have h1: "length scenarioA = length scenarioA_relabelled"
    by (simp add: scenarioA_def scenarioA_relabelled_def)
  have h2: "\<forall>i<length scenarioA.
      ev_type (scenarioA ! i) = ev_type (scenarioA_relabelled ! i) \<and>
      ev_x (scenarioA ! i) = ev_x (scenarioA_relabelled ! i) \<and>
      ev_y (scenarioA ! i) = ev_y (scenarioA_relabelled ! i) \<and>
      ev_width (scenarioA ! i) = ev_width (scenarioA_relabelled ! i) \<and>
      ev_height (scenarioA ! i) = ev_height (scenarioA_relabelled ! i)"
    by (simp add: scenarioA_def scenarioA_relabelled_def box_def less_Suc_eq)
  have h3: "map ev_value scenarioA \<noteq> map ev_value scenarioA_relabelled"
    by (simp add: scenarioA_def scenarioA_relabelled_def box_def)
  show ?thesis using h1 h3 labels_do_not_matter [OF h1 h2] by simp
qed

end
